theory Spec2Isabelle
  imports Main
begin

section \<open>Text operations (packages/core/src/types/text.ts)\<close>

text \<open>
  An operation component is one of \<open>{i: string}\<close>, \<open>{r: number}\<close>, \<open>{d: number}\<close>.
  Numbers are modelled as integers (the source never produces a fraction from integer
  input), so zero and negative sizes are values of the type, as they are in the source.
  A component carries exactly one of the three keys. \<open>Unknown\<close> stands for any array
  element that carries none of them (or is not an object at all): the values \<open>checkOp\<close>
  rejects.
  Strings are lists of code units; \<open>length\<close> counts units as \<open>String.length\<close> does.
\<close>

datatype component = Insert string | Retain int | Delete int | Unknown

type_synonym TextOperation = "component list"

datatype side = Left | Right

text \<open>
  Every \<open>throw new Error(...)\<close> of the modelled files is one constructor:
  \<open>OpMalformed\<close>: "Operation component must be an object" and
  "Operation component must be Insert, Retain, or Delete" (checkOp);
  \<open>OpOutOfBounds\<close>: "Operation goes past the end of the string" (apply);
  \<open>TypeUnknown\<close>: "Unknown type: ..." (Server.submitOperation);
  \<open>RevisionFromFuture\<close>: "Invalid revision: ..." (Server.submitOperation);
  \<open>DocumentNotFound\<close>: "Document ... not found" (MemoryBackend);
  \<open>ConcurrencyConflict\<close>: "Concurrency error: Expected revision ..." (MemoryBackend).
\<close>

datatype error =
  OpMalformed | OpOutOfBounds | TypeUnknown | RevisionFromFuture
  | DocumentNotFound | ConcurrencyConflict

fun isInsert :: "component \<Rightarrow> bool" where
  "isInsert (Insert s) = True"
| "isInsert c = False"

fun isRetain :: "component \<Rightarrow> bool" where
  "isRetain (Retain n) = True"
| "isRetain c = False"

fun isDelete :: "component \<Rightarrow> bool" where
  "isDelete (Delete n) = True"
| "isDelete c = False"

fun getLength :: "component \<Rightarrow> int" where
  "getLength (Insert s) = int (length s)"
| "getLength (Retain n) = n"
| "getLength (Delete n) = n"
| "getLength Unknown = 0"

subsection \<open>String primitives of the host language\<close>

text \<open>
  \<open>s.slice(start, end)\<close>, on strings and on arrays alike: a negative index counts
  from the end, both indices are clamped to \<open>[0, length]\<close>, and an empty range gives
  the empty sequence.
\<close>

definition js_index :: "'a list \<Rightarrow> int \<Rightarrow> nat" where
  "js_index s k =
     (if k < 0 then nat (max (int (length s) + k) 0) else nat (min k (int (length s))))"

definition js_slice :: "'a list \<Rightarrow> int \<Rightarrow> int \<Rightarrow> 'a list" where
  "js_slice s start stop =
     take (js_index s stop - js_index s start) (drop (js_index s start) s)"

text \<open>\<open>s.slice(start)\<close>: to the end of the sequence.\<close>

definition js_slice_from :: "'a list \<Rightarrow> int \<Rightarrow> 'a list" where
  "js_slice_from s start = drop (js_index s start) s"

text \<open>
  \<open>s.substr(start, length)\<close>: the start is resolved like a slice index, the length is
  clamped to \<open>[0, length s]\<close>.
\<close>

definition js_substr :: "string \<Rightarrow> int \<Rightarrow> int \<Rightarrow> string" where
  "js_substr s start len =
     take (nat (min (max len 0) (int (length s)))) (drop (js_index s start) s)"

subsection \<open>checkOp, append, normalize\<close>

fun checkOp :: "TextOperation \<Rightarrow> error + unit" where
  "checkOp [] = Inr ()"
| "checkOp (c # op) =
     (if \<not> isInsert c \<and> \<not> isRetain c \<and> \<not> isDelete c then Inl OpMalformed
      else checkOp op)"

text \<open>
  \<open>append(op, component)\<close> mutates the array \<open>op\<close>; the model returns the new array.
  Merging rewrites the last element in place.
\<close>

fun merge_last :: "component \<Rightarrow> component \<Rightarrow> component list" where
  "merge_last (Retain a) (Retain b) = [Retain (a + b)]"
| "merge_last (Insert a) (Insert b) = [Insert (a @ b)]"
| "merge_last (Delete a) (Delete b) = [Delete (a + b)]"
| "merge_last l component = [l, component]"

definition append_op :: "TextOperation \<Rightarrow> component \<Rightarrow> TextOperation" where
  "append_op op component =
     (if component = Retain 0 then op
      else if component = Insert [] then op
      else if component = Delete 0 then op
      else if op = [] then [component]
      else butlast op @ merge_last (last op) component)"

definition normalize :: "TextOperation \<Rightarrow> TextOperation" where
  "normalize op = foldl append_op [] op"

subsection \<open>apply\<close>

fun apply_loop :: "string \<Rightarrow> TextOperation \<Rightarrow> string \<Rightarrow> int \<Rightarrow> error + string" where
  "apply_loop snapshot [] result index =
     Inr (if index < int (length snapshot) then result @ js_slice_from snapshot index
          else result)"
| "apply_loop snapshot (Insert i # op) result index =
     apply_loop snapshot op (result @ i) index"
| "apply_loop snapshot (Retain r # op) result index =
     (if index + r > int (length snapshot) then Inl OpOutOfBounds
      else apply_loop snapshot op (result @ js_slice snapshot index (index + r)) (index + r))"
| "apply_loop snapshot (Delete d # op) result index =
     (if index + d > int (length snapshot) then Inl OpOutOfBounds
      else apply_loop snapshot op result (index + d))"
| "apply_loop snapshot (Unknown # op) result index =
     apply_loop snapshot op result index"

definition text_apply :: "string \<Rightarrow> TextOperation \<Rightarrow> error + string" where
  "text_apply snapshot op =
     (case checkOp op of Inl e \<Rightarrow> Inl e | Inr u \<Rightarrow> apply_loop snapshot op [] 0)"

subsection \<open>The two-cursor loops of transform and compose\<close>

text \<open>
  \<open>cA = iA < lenA ? opA[iA] : implicitRetain\<close>. The implicit retain is \<open>{r: Infinity}\<close>,
  which is no integer: a cursor is \<open>Some\<close> component of the operation or \<open>None\<close> for
  the implicit retain, and a length is a finite integer or \<open>Infinity\<close>.
\<close>

datatype jsnum = Fin int | Infinity

definition cursor :: "TextOperation \<Rightarrow> nat \<Rightarrow> component option" where
  "cursor op i = (if i < length op then Some (op ! i) else None)"

fun cIsInsert :: "component option \<Rightarrow> bool" where
  "cIsInsert (Some c) = isInsert c"
| "cIsInsert None = False"

fun cIsRetain :: "component option \<Rightarrow> bool" where
  "cIsRetain (Some c) = isRetain c"
| "cIsRetain None = True"

fun cIsDelete :: "component option \<Rightarrow> bool" where
  "cIsDelete (Some c) = isDelete c"
| "cIsDelete None = False"

fun cGetLength :: "component option \<Rightarrow> jsnum" where
  "cGetLength (Some c) = Fin (getLength c)"
| "cGetLength None = Infinity"

text \<open>The text \<open>cA.i\<close> of an insert under the cursor.\<close>

fun cText :: "component option \<Rightarrow> string" where
  "cText (Some (Insert s)) = s"
| "cText c = []"

text \<open>\<open>getLength(c) - offset\<close>, \<open>Math.min\<close> and \<open>offset >= getLength(c)\<close> with Infinity.\<close>

fun num_sub :: "jsnum \<Rightarrow> int \<Rightarrow> jsnum" where
  "num_sub (Fin a) k = Fin (a - k)"
| "num_sub Infinity k = Infinity"

fun num_min :: "jsnum \<Rightarrow> jsnum \<Rightarrow> jsnum" where
  "num_min (Fin a) (Fin b) = Fin (min a b)"
| "num_min (Fin a) Infinity = Fin a"
| "num_min Infinity b = b"

fun num_ge :: "int \<Rightarrow> jsnum \<Rightarrow> bool" where
  "num_ge k (Fin a) = (k \<ge> a)"
| "num_ge k Infinity = False"

text \<open>
  Inside either loop at least one cursor is a real component, so \<open>minLen\<close> is finite;
  \<open>fin\<close> reads it (the value at \<open>Infinity\<close> is never used).
\<close>

fun fin :: "jsnum \<Rightarrow> int" where
  "fin (Fin a) = a"
| "fin Infinity = 0"

definition minLen :: "component option \<Rightarrow> int \<Rightarrow> component option \<Rightarrow> int \<Rightarrow> int" where
  "minLen cA offsetA cB offsetB =
     fin (num_min (num_sub (cGetLength cA) offsetA) (num_sub (cGetLength cB) offsetB))"

text \<open>
  \<open>if (i < len && offset >= getLength(c)) { i++; offset = 0; }\<close>, applied to the offset
  already advanced by \<open>minLen\<close>.
\<close>

definition consumed :: "TextOperation \<Rightarrow> nat \<Rightarrow> int \<Rightarrow> bool" where
  "consumed op i offset = (i < length op \<and> num_ge offset (cGetLength (cursor op i)))"

function transform_loop ::
  "TextOperation \<Rightarrow> TextOperation \<Rightarrow> side \<Rightarrow> nat \<Rightarrow> nat \<Rightarrow> int \<Rightarrow> int \<Rightarrow> TextOperation
   \<Rightarrow> TextOperation" where
  "transform_loop opA opB side iA iB offsetA offsetB newOp =
     (if iA < length opA \<or> iB < length opB then
        (let cA = cursor opA iA; cB = cursor opB iB in
         if cIsInsert cA then
           (if cIsInsert cB then
              (if side = Left then
                 transform_loop opA opB side (iA + 1) iB offsetA offsetB
                   (append_op newOp (Insert (cText cA)))
               else
                 transform_loop opA opB side iA (iB + 1) offsetA offsetB
                   (append_op newOp (Retain (fin (cGetLength cB)))))
            else
              transform_loop opA opB side (iA + 1) iB offsetA offsetB
                (append_op newOp (Insert (cText cA))))
         else if cIsInsert cB then
           transform_loop opA opB side iA (iB + 1) offsetA offsetB
             (append_op newOp (Retain (fin (cGetLength cB))))
         else
           (let m = minLen cA offsetA cB offsetB;
                newOp' =
                  (if cIsRetain cA \<and> cIsRetain cB then append_op newOp (Retain m)
                   else if cIsDelete cA \<and> cIsRetain cB then append_op newOp (Delete m)
                   else newOp)
            in transform_loop opA opB side
                 (if consumed opA iA (offsetA + m) then iA + 1 else iA)
                 (if consumed opB iB (offsetB + m) then iB + 1 else iB)
                 (if consumed opA iA (offsetA + m) then 0 else offsetA + m)
                 (if consumed opB iB (offsetB + m) then 0 else offsetB + m)
                 newOp'))
      else newOp)"
  by pat_completeness auto

text \<open>
  \<open>compose\<close>: \<open>{ d: cA.d }\<close> is the delete under cursor A, and
  \<open>cA.i.substr(offsetA, minLen)\<close> the part of A's insert that B retains.
\<close>

function compose_loop ::
  "TextOperation \<Rightarrow> TextOperation \<Rightarrow> nat \<Rightarrow> nat \<Rightarrow> int \<Rightarrow> int \<Rightarrow> TextOperation
   \<Rightarrow> TextOperation" where
  "compose_loop opA opB iA iB offsetA offsetB newOp =
     (if iA < length opA \<or> iB < length opB then
        (let cA = cursor opA iA; cB = cursor opB iB in
         if cIsDelete cA then
           compose_loop opA opB (iA + 1) iB offsetA offsetB
             (append_op newOp (Delete (fin (cGetLength cA))))
         else if cIsInsert cB then
           compose_loop opA opB iA (iB + 1) offsetA offsetB
             (append_op newOp (Insert (cText cB)))
         else
           (let m = minLen cA offsetA cB offsetB;
                newOp' =
                  (if cIsRetain cA then
                     (if cIsRetain cB then append_op newOp (Retain m)
                      else if cIsDelete cB then append_op newOp (Delete m)
                      else newOp)
                   else if cIsInsert cA then
                     (if cIsRetain cB then
                        append_op newOp (Insert (js_substr (cText cA) offsetA m))
                      else newOp)
                   else newOp)
            in compose_loop opA opB
                 (if consumed opA iA (offsetA + m) then iA + 1 else iA)
                 (if consumed opB iB (offsetB + m) then iB + 1 else iB)
                 (if consumed opA iA (offsetA + m) then 0 else offsetA + m)
                 (if consumed opB iB (offsetB + m) then 0 else offsetB + m)
                 newOp'))
      else newOp)"
  by pat_completeness auto

text \<open>
  Each pass of either loop moves a cursor: an insert or delete that is emitted at once
  advances its side, and otherwise \<open>minLen\<close> exhausts the shorter of the two
  components (the implicit retain is never the shorter one).
\<close>

termination transform_loop
proof (relation "measure (\<lambda>(opA, opB, side, iA, iB, offsetA, offsetB, newOp).
                   (length opA - iA) + (length opB - iB))", goal_cases)
  case (6 opA opB side iA iB offsetA offsetB newOp cA cB m newOp')
  then have "consumed opA iA (offsetA + m) \<or> consumed opB iB (offsetB + m)"
    by (auto simp: consumed_def minLen_def cursor_def)
  then show ?case
    by (auto simp: consumed_def)
qed (auto simp: cursor_def split: if_splits)

termination compose_loop
proof (relation "measure (\<lambda>(opA, opB, iA, iB, offsetA, offsetB, newOp).
                   (length opA - iA) + (length opB - iB))", goal_cases)
  case (4 opA opB iA iB offsetA offsetB newOp cA cB m newOp')
  then have "consumed opA iA (offsetA + m) \<or> consumed opB iB (offsetB + m)"
    by (auto simp: consumed_def minLen_def cursor_def)
  then show ?case
    by (auto simp: consumed_def)
qed (auto simp: cursor_def split: if_splits)

definition text_transform :: "TextOperation \<Rightarrow> TextOperation \<Rightarrow> side \<Rightarrow> error + TextOperation" where
  "text_transform opA opB side =
     (case checkOp opA of Inl e \<Rightarrow> Inl e
      | Inr u \<Rightarrow>
          (case checkOp opB of Inl e \<Rightarrow> Inl e
           | Inr u' \<Rightarrow> Inr (normalize (transform_loop opA opB side 0 0 0 0 []))))"

definition text_compose :: "TextOperation \<Rightarrow> TextOperation \<Rightarrow> error + TextOperation" where
  "text_compose opA opB =
     (case checkOp opA of Inl e \<Rightarrow> Inl e
      | Inr u \<Rightarrow>
          (case checkOp opB of Inl e \<Rightarrow> Inl e
           | Inr u' \<Rightarrow> Inr (normalize (compose_loop opA opB 0 0 0 0 []))))"

section \<open>The OT type interface (packages/core/src/interfaces.ts)\<close>

text \<open>
  \<open>OTType<Snapshot, Op>\<close>: the fields are prefixed with \<open>ot_\<close>. A type's functions
  may throw, so they return a sum.
\<close>

record ('snap, 'op) OTType =
  ot_name :: string
  ot_create :: 'snap
  ot_apply :: "'snap \<Rightarrow> 'op \<Rightarrow> error + 'snap"
  ot_transform :: "'op \<Rightarrow> 'op \<Rightarrow> side \<Rightarrow> error + 'op"
  ot_compose :: "'op \<Rightarrow> 'op \<Rightarrow> error + 'op"

definition TextType :: "(string, TextOperation) OTType" where
  "TextType =
     \<lparr> ot_name = ''text'', ot_create = [], ot_apply = text_apply,
       ot_transform = text_transform, ot_compose = text_compose \<rparr>"

section \<open>The memory backend (packages/server/src/memory-adapter.ts)\<close>

text \<open>\<open>DocumentRecord = { type, v, data }\<close>; the fields are prefixed with \<open>doc_\<close>.\<close>

record 'snap DocumentRecord =
  doc_type :: string
  doc_v :: int
  doc_data :: 'snap

record ('snap, 'op) MemoryBackend =
  documents :: "string \<rightharpoonup> 'snap DocumentRecord"
  history :: "string \<rightharpoonup> 'op list"

definition new_MemoryBackend :: "('snap, 'op) MemoryBackend" where
  "new_MemoryBackend = \<lparr> documents = Map.empty, history = Map.empty \<rparr>"

definition createDocument ::
  "('snap, 'op) MemoryBackend \<Rightarrow> string \<Rightarrow> string \<Rightarrow> 'snap \<Rightarrow> ('snap, 'op) MemoryBackend" where
  "createDocument b docId type initialSnapshot =
     b \<lparr> documents := (documents b)
             (docId \<mapsto> \<lparr> doc_type = type, doc_v = 0, doc_data = initialSnapshot \<rparr>),
         history := (history b)(docId \<mapsto> []) \<rparr>"

definition getRecord ::
  "('snap, 'op) MemoryBackend \<Rightarrow> string \<Rightarrow> error + 'snap DocumentRecord" where
  "getRecord b docId =
     (case documents b docId of None \<Rightarrow> Inl DocumentNotFound | Some doc \<Rightarrow> Inr doc)"

text \<open>
  \<open>getHistory(docId, start, end?)\<close>: \<open>(this.history.get(docId) || []).slice(start, end)\<close>.
\<close>

definition getHistory ::
  "('snap, 'op) MemoryBackend \<Rightarrow> string \<Rightarrow> int \<Rightarrow> int option \<Rightarrow> 'op list" where
  "getHistory b docId start stop =
     (let ops = (case history b docId of None \<Rightarrow> [] | Some ops \<Rightarrow> ops)
      in case stop of None \<Rightarrow> js_slice_from ops start | Some e \<Rightarrow> js_slice ops start e)"

text \<open>
  \<open>saveOperation\<close> returns the outcome and the backend after the call. Both throws come
  before any write. The push goes to \<open>this.history.get(docId) || []\<close>: when the
  history map has no entry for the document, the pushed array is a fresh one that is
  dropped.
\<close>

definition saveOperation ::
  "('snap, 'op) MemoryBackend \<Rightarrow> string \<Rightarrow> 'op \<Rightarrow> int
   \<Rightarrow> (error + unit) \<times> ('snap, 'op) MemoryBackend" where
  "saveOperation b docId op newRevision =
     (case documents b docId of
        None \<Rightarrow> (Inl DocumentNotFound, b)
      | Some doc \<Rightarrow>
          if doc_v doc + 1 \<noteq> newRevision then (Inl ConcurrencyConflict, b)
          else
            (Inr (),
             b \<lparr> history :=
                   (case history b docId of
                      None \<Rightarrow> history b
                    | Some ops \<Rightarrow> (history b)(docId \<mapsto> ops @ [op])),
                 documents := (documents b)(docId \<mapsto> doc \<lparr> doc_v := newRevision \<rparr>) \<rparr>))"

section \<open>The server (packages/server/src/server.ts)\<close>

record ('snap, 'op) Server =
  backend :: "('snap, 'op) MemoryBackend"
  types :: "string \<rightharpoonup> ('snap, 'op) OTType"

definition new_Server :: "('snap, 'op) MemoryBackend \<Rightarrow> ('snap, 'op) Server" where
  "new_Server b = \<lparr> backend = b, types = Map.empty \<rparr>"

definition registerType :: "('snap, 'op) Server \<Rightarrow> ('snap, 'op) OTType \<Rightarrow> ('snap, 'op) Server" where
  "registerType srv type = srv \<lparr> types := (types srv)(ot_name type \<mapsto> type) \<rparr>"

text \<open>
  The catch-up loop \<open>for (const pastOp of history) finalOp = type.transform(finalOp,
  pastOp, "right")\<close>; a throw of \<open>transform\<close> leaves the loop.
\<close>

fun catch_up :: "('snap, 'op) OTType \<Rightarrow> 'op \<Rightarrow> 'op list \<Rightarrow> error + 'op" where
  "catch_up type finalOp [] = Inr finalOp"
| "catch_up type finalOp (pastOp # hist) =
     (case ot_transform type finalOp pastOp Right of
        Inl e \<Rightarrow> Inl e
      | Inr finalOp' \<Rightarrow> catch_up type finalOp' hist)"

text \<open>
  The server holds an \<open>IBackendAdapter\<close>; here it is the memory backend, the adapter
  the server's tests run on.

  \<open>submitOperation\<close> is an async function. It runs until an \<open>await\<close>, suspends there, and
  resumes later; calls of other clients run in between. The adapter's methods have no
  \<open>await\<close> of their own, so each reads or writes the backend at the moment it is called.
  The call has three adapter calls and so three stretches of code that run without
  interruption:
  \<^item> \<open>getRecord(docId)\<close>, which hands out the stored record object itself, not a copy;
  \<^item> after the first \<open>await\<close>: the type lookup, the revision check and, when
    \<open>revision < record.v\<close>, \<open>getHistory(docId, revision)\<close>;
  \<^item> after the second \<open>await\<close>: the catch-up loop, \<open>newRevision = record.v + 1\<close> and
    \<open>saveOperation\<close>.

  When \<open>revision = record.v\<close> no history is fetched and the second stretch runs on into
  the third. The stretches after an \<open>await\<close> read \<open>record.type\<close> and \<open>record.v\<close> from the
  object the call holds, and \<open>saveOperation\<close> writes \<open>v\<close> to that same object: they take
  as \<open>record\<close> the object in the state it has when the stretch runs.
\<close>

text \<open>
  The stretch of the checks. It returns the type and the history it fetched
  (\<open>None\<close> when \<open>revision < record.v\<close> does not hold and nothing is fetched).
\<close>

definition submitOperation_checks ::
  "('snap, 'op) Server \<Rightarrow> string \<Rightarrow> 'snap DocumentRecord \<Rightarrow> int
   \<Rightarrow> error + (('snap, 'op) OTType \<times> 'op list option)" where
  "submitOperation_checks srv docId record revision =
     (case types srv (doc_type record) of
        None \<Rightarrow> Inl TypeUnknown
      | Some type \<Rightarrow>
          if revision > doc_v record then Inl RevisionFromFuture
          else if revision < doc_v record
          then Inr (type, Some (getHistory (backend srv) docId revision None))
          else Inr (type, None))"

text \<open>
  The stretch of the commit: the catch-up loop over the fetched history, the new
  revision from the record as it is now, and \<open>saveOperation\<close>. It returns the outcome of
  the call and the server after it.
\<close>

definition submitOperation_commit ::
  "('snap, 'op) Server \<Rightarrow> string \<Rightarrow> 'snap DocumentRecord \<Rightarrow> ('snap, 'op) OTType \<Rightarrow> 'op
   \<Rightarrow> 'op list option \<Rightarrow> (error + ('op \<times> int)) \<times> ('snap, 'op) Server" where
  "submitOperation_commit srv docId record type op fetched =
     (case (case fetched of None \<Rightarrow> Inr op | Some hist \<Rightarrow> catch_up type op hist) of
        Inl e \<Rightarrow> (Inl e, srv)
      | Inr finalOp \<Rightarrow>
          (let newRevision = doc_v record + 1 in
           case saveOperation (backend srv) docId finalOp newRevision of
             (Inl e, b') \<Rightarrow> (Inl e, srv \<lparr> backend := b' \<rparr>)
           | (Inr u, b') \<Rightarrow> (Inr (finalOp, newRevision), srv \<lparr> backend := b' \<rparr>)))"

text \<open>
  \<open>submitOperation\<close> is a call that no other call overlaps: nothing runs between its
  stretches, so each finds the server and the record as the stretch before left them.
  A call that is overlapped is a different composition of the same stretches, with the
  other call's stretches in between.
\<close>

definition submitOperation ::
  "('snap, 'op) Server \<Rightarrow> string \<Rightarrow> 'op \<Rightarrow> int
   \<Rightarrow> (error + ('op \<times> int)) \<times> ('snap, 'op) Server" where
  "submitOperation srv docId op revision =
     (case getRecord (backend srv) docId of
        Inl e \<Rightarrow> (Inl e, srv)
      | Inr record \<Rightarrow>
          (case submitOperation_checks srv docId record revision of
             Inl e \<Rightarrow> (Inl e, srv)
           | Inr (type, fetched) \<Rightarrow> submitOperation_commit srv docId record type op fetched))"

section \<open>Specification-side notions\<close>

text \<open>
  The log entries at indices \<open>revision, ..., v - 1\<close>, oldest first, and the left fold of
  \<open>transform(acc, past_op, "right")\<close> over a list of past operations, as the server's
  description words them. A failing transform ends the fold with its error.
\<close>

definition log_entries :: "'op list \<Rightarrow> int \<Rightarrow> int \<Rightarrow> 'op list" where
  "log_entries ops revision v = map (\<lambda>i. ops ! i) [nat revision ..< nat v]"

definition transform_fold :: "('snap, 'op) OTType \<Rightarrow> 'op \<Rightarrow> 'op list \<Rightarrow> error + 'op" where
  "transform_fold type op past =
     foldl (\<lambda>acc past_op. case acc of Inl e \<Rightarrow> Inl e
                                     | Inr a \<Rightarrow> ot_transform type a past_op Right)
           (Inr op) past"

text \<open>
  The server after committing \<open>op\<close> to a document whose record is \<open>record\<close> and whose
  log is \<open>ops\<close>: the operation is appended and the revision is one higher.
\<close>

definition committed ::
  "('snap, 'op) Server \<Rightarrow> string \<Rightarrow> 'snap DocumentRecord \<Rightarrow> 'op list \<Rightarrow> 'op
   \<Rightarrow> ('snap, 'op) Server" where
  "committed srv docId record ops op =
     srv \<lparr> backend := (backend srv)
       \<lparr> history := (history (backend srv))(docId \<mapsto> ops @ [op]),
         documents := (documents (backend srv))
            (docId \<mapsto> record \<lparr> doc_v := doc_v record + 1 \<rparr>) \<rparr> \<rparr>"

subsection \<open>Well-formed operations\<close>

text \<open>
  An operation is normalized when no component is zero-sized or empty and no two
  consecutive components are of the same variant; it is well-formed when, besides, it
  has no unknown component.
\<close>

fun sized :: "component \<Rightarrow> bool" where
  "sized (Insert s) = (s \<noteq> [])"
| "sized (Retain n) = (n > 0)"
| "sized (Delete n) = (n > 0)"
| "sized Unknown = True"

fun same_variant :: "component \<Rightarrow> component \<Rightarrow> bool" where
  "same_variant (Insert s) (Insert t) = True"
| "same_variant (Retain n) (Retain m) = True"
| "same_variant (Delete n) (Delete m) = True"
| "same_variant c c' = False"

fun normalized :: "TextOperation \<Rightarrow> bool" where
  "normalized [] = True"
| "normalized [c] = sized c"
| "normalized (c # c' # op) = (sized c \<and> \<not> same_variant c c' \<and> normalized (c' # op))"

definition has_unknown :: "TextOperation \<Rightarrow> bool" where
  "has_unknown op = (Unknown \<in> set op)"

definition well_formed :: "TextOperation \<Rightarrow> bool" where
  "well_formed op = (normalized op \<and> \<not> has_unknown op)"

subsection \<open>What apply is to compute\<close>

text \<open>
  Scanning \<open>op\<close> from index \<open>i\<close>, some Retain or Delete would advance the index past
  \<open>len\<close>.
\<close>

fun overruns :: "int \<Rightarrow> TextOperation \<Rightarrow> int \<Rightarrow> bool" where
  "overruns len [] i = False"
| "overruns len (Retain n # op) i = (i + n > len \<or> overruns len op (i + n))"
| "overruns len (Delete n # op) i = (i + n > len \<or> overruns len op (i + n))"
| "overruns len (c # op) i = overruns len op i"

text \<open>The index after the scan: the units of the snapshot the operation passes over.\<close>

fun traversed :: "TextOperation \<Rightarrow> int" where
  "traversed [] = 0"
| "traversed (Retain n # op) = n + traversed op"
| "traversed (Delete n # op) = n + traversed op"
| "traversed (c # op) = traversed op"

text \<open>
  The text the components write: a Retain copies from the front of what is left of the
  snapshot, an Insert writes its string, a Delete skips.
\<close>

fun emitted :: "string \<Rightarrow> TextOperation \<Rightarrow> string" where
  "emitted s [] = []"
| "emitted s (Insert t # op) = t @ emitted s op"
| "emitted s (Retain n # op) = take (nat n) s @ emitted (drop (nat n) s) op"
| "emitted s (Delete n # op) = emitted (drop (nat n) s) op"
| "emitted s (Unknown # op) = emitted s op"

text \<open>Operations without negative sizes, and apply as a function of the operation's head.\<close>

definition nonneg :: "TextOperation \<Rightarrow> bool" where
  "nonneg op = list_all (\<lambda>c. 0 \<le> getLength c) op"

fun app :: "string \<Rightarrow> TextOperation \<Rightarrow> string option" where
  "app s [] = Some s"
| "app s (Insert t # op) = (case app s op of None \<Rightarrow> None | Some r \<Rightarrow> Some (t @ r))"
| "app s (Retain n # op) =
     (if n > int (length s) then None
      else case app (drop (nat n) s) op of
             None \<Rightarrow> None
           | Some r \<Rightarrow> Some (take (nat n) s @ r))"
| "app s (Delete n # op) =
     (if n > int (length s) then None else app (drop (nat n) s) op)"
| "app s (Unknown # op) = app s op"

subsection \<open>The loops as functions of what is left of each operation\<close>

text \<open>
  A cursor \<open>(i, offset)\<close> into an operation stands for what is left of it: the
  component at \<open>i\<close> without its first \<open>offset\<close> units, then the components after it.
  \<open>transform_list\<close> is the loop of \<open>transform\<close> on what is left of both operations;
  it lists the components handed to \<open>append\<close>.
\<close>

definition hd_c :: "TextOperation \<Rightarrow> component option" where
  "hd_c op = (case op of [] \<Rightarrow> None | c # op' \<Rightarrow> Some c)"

fun shrink :: "component \<Rightarrow> int \<Rightarrow> component" where
  "shrink (Insert s) k = Insert (drop (nat k) s)"
| "shrink (Retain n) k = Retain (n - k)"
| "shrink (Delete n) k = Delete (n - k)"
| "shrink Unknown k = Unknown"

definition advance :: "TextOperation \<Rightarrow> int \<Rightarrow> TextOperation" where
  "advance op m =
     (case op of [] \<Rightarrow> []
      | c # op' \<Rightarrow> if m \<ge> getLength c then op' else shrink c m # op')"

definition remaining :: "TextOperation \<Rightarrow> nat \<Rightarrow> int \<Rightarrow> TextOperation" where
  "remaining op i offset =
     (if i < length op then shrink (op ! i) offset # drop (Suc i) op else [])"

function transform_list :: "TextOperation \<Rightarrow> TextOperation \<Rightarrow> side \<Rightarrow> TextOperation" where
  "transform_list a b side =
     (if a \<noteq> [] \<or> b \<noteq> [] then
        (let cA = hd_c a; cB = hd_c b in
         if cIsInsert cA then
           (if cIsInsert cB then
              (if side = Left then Insert (cText cA) # transform_list (tl a) b side
               else Retain (fin (cGetLength cB)) # transform_list a (tl b) side)
            else Insert (cText cA) # transform_list (tl a) b side)
         else if cIsInsert cB then
           Retain (fin (cGetLength cB)) # transform_list a (tl b) side
         else
           (let m = minLen cA 0 cB 0 in
            (if cIsRetain cA \<and> cIsRetain cB then [Retain m]
             else if cIsDelete cA \<and> cIsRetain cB then [Delete m]
             else [])
            @ transform_list (advance a m) (advance b m) side))
      else [])"
  by pat_completeness auto

termination transform_list
proof (relation "measure (\<lambda>(a, b, side). length a + length b)", goal_cases)
  case (6 a b side cA cB m)
  then have "length (advance a m) + length (advance b m) < length a + length b"
    by (cases a; cases b) (auto simp: advance_def minLen_def hd_c_def min_def)
  then show ?case by simp
qed (auto simp: hd_c_def split: list.splits)

text \<open>An insert under a cursor is never partly consumed by the loop of transform.\<close>

definition at_whole :: "TextOperation \<Rightarrow> nat \<Rightarrow> int \<Rightarrow> bool" where
  "at_whole op i offset = (i < length op \<and> isInsert (op ! i) \<longrightarrow> offset = 0)"

text \<open>
  \<open>compose_list\<close> is the loop of \<open>compose\<close> on what is left of both operations.
\<close>

function compose_list :: "TextOperation \<Rightarrow> TextOperation \<Rightarrow> TextOperation" where
  "compose_list a b =
     (if a \<noteq> [] \<or> b \<noteq> [] then
        (let cA = hd_c a; cB = hd_c b in
         if cIsDelete cA then Delete (fin (cGetLength cA)) # compose_list (tl a) b
         else if cIsInsert cB then Insert (cText cB) # compose_list a (tl b)
         else
           (let m = minLen cA 0 cB 0 in
            (if cIsRetain cA then
               (if cIsRetain cB then [Retain m]
                else if cIsDelete cB then [Delete m]
                else [])
             else if cIsInsert cA then
               (if cIsRetain cB then [Insert (js_substr (cText cA) 0 m)] else [])
             else [])
            @ compose_list (advance a m) (advance b m)))
      else [])"
  by pat_completeness auto

termination compose_list
proof (relation "measure (\<lambda>(a, b). length a + length b)", goal_cases)
  case (4 a b cA cB m)
  then have "length (advance a m) + length (advance b m) < length a + length b"
    by (cases a; cases b) (auto simp: advance_def minLen_def hd_c_def min_def)
  then show ?case by simp
qed (auto simp: hd_c_def split: list.splits)

text \<open>
  In the loop of compose a component under a cursor may be partly consumed, by an offset
  within its length; a delete of the first operation and an insert of the second never
  are.
\<close>

definition within :: "(component \<Rightarrow> bool) \<Rightarrow> TextOperation \<Rightarrow> nat \<Rightarrow> int \<Rightarrow> bool" where
  "within whole op i offset =
     (i < length op \<longrightarrow>
        0 \<le> offset \<and> offset \<le> getLength (op ! i) \<and> (whole (op ! i) \<longrightarrow> offset = 0))"

subsection \<open>A concrete server\<close>

text \<open>
  The state of the server test after client A's \<open>[{i: "Hello"}]\<close> was committed to
  \<open>doc1\<close>: the text type is registered and the document is at revision 1.
\<close>

definition example_record :: "string DocumentRecord" where
  "example_record = \<lparr> doc_type = ''text'', doc_v = 1, doc_data = [] \<rparr>"

definition example_backend :: "(string, TextOperation) MemoryBackend" where
  "example_backend =
     \<lparr> documents = [''doc1'' \<mapsto> example_record],
       history = [''doc1'' \<mapsto> [[Insert ''Hello'']]] \<rparr>"

definition example_server :: "(string, TextOperation) Server" where
  "example_server = \<lparr> backend = example_backend, types = [''text'' \<mapsto> TextType] \<rparr>"

text \<open>
  The concrete server after a second client's call \<open>submitOperation("doc1",
  [{r: 5}, {i: "!"}], 1)\<close> has run.
\<close>

definition example_after_B :: "(string, TextOperation) Server" where
  "example_after_B = snd (submitOperation example_server ''doc1'' [Retain 5, Insert ''!''] 1)"

text \<open>A second type that also calls itself \<open>text\<close> but starts from another snapshot.\<close>

definition other_text_type :: "(string, TextOperation) OTType" where
  "other_text_type = TextType \<lparr> ot_create := ''x'' \<rparr>"

section \<open>Properties of the memory backend\<close>

text \<open>
  C10. \<open>createDocument\<close> has no failing path. Whatever the backend held under
  \<open>docId\<close>, afterwards the record is \<open>{type, v: 0, data: initialSnapshot}\<close> and the
  operation log of the document is empty: a document that existed is replaced and its
  committed operations are gone.
\<close>

theorem createDocument_replaces:
  "documents (createDocument b docId type initialSnapshot) docId
     = Some \<lparr> doc_type = type, doc_v = 0, doc_data = initialSnapshot \<rparr>
   \<and> history (createDocument b docId type initialSnapshot) docId = Some []
   \<and> getHistory (createDocument b docId type initialSnapshot) docId 0 None = []
   \<and> getRecord (createDocument b docId type initialSnapshot) docId
     = Inr \<lparr> doc_type = type, doc_v = 0, doc_data = initialSnapshot \<rparr>"
  by (simp add: createDocument_def getHistory_def getRecord_def js_slice_from_def)

text \<open>
  Every document of a backend built by \<open>createDocument\<close> and \<open>saveOperation\<close> has a
  log, and the log holds as many operations as the revision says.
\<close>

lemma createDocument_log:
  "documents (createDocument b docId type initialSnapshot) d = Some doc \<Longrightarrow>
   (\<forall>d doc. documents b d = Some doc \<longrightarrow>
      (\<exists>ops. history b d = Some ops \<and> int (length ops) = doc_v doc)) \<Longrightarrow>
   \<exists>ops. history (createDocument b docId type initialSnapshot) d = Some ops
         \<and> int (length ops) = doc_v doc"
  by (auto simp: createDocument_def split: if_splits)

lemma saveOperation_log:
  "documents (snd (saveOperation b docId op newRevision)) d = Some doc \<Longrightarrow>
   (\<forall>d doc. documents b d = Some doc \<longrightarrow>
      (\<exists>ops. history b d = Some ops \<and> int (length ops) = doc_v doc)) \<Longrightarrow>
   \<exists>ops. history (snd (saveOperation b docId op newRevision)) d = Some ops
         \<and> int (length ops) = doc_v doc"
  by (fastforce simp: saveOperation_def split: option.splits if_splits)

text \<open>
  C4. For a document of the backend (with its log), \<open>saveOperation\<close> fails with the
  concurrency error unless the current revision is \<open>newRevision - 1\<close>. On success the
  operation is appended to the log and the revision becomes \<open>newRevision\<close>; on failure
  the backend is returned as it was.
\<close>

theorem saveOperation_atomic:
  assumes "documents b docId = Some doc" and "history b docId = Some ops"
  shows "saveOperation b docId op newRevision =
           (if doc_v doc = newRevision - 1
            then (Inr (),
                  b \<lparr> history := (history b)(docId \<mapsto> ops @ [op]),
                      documents := (documents b)(docId \<mapsto> doc \<lparr> doc_v := newRevision \<rparr>) \<rparr>)
            else (Inl ConcurrencyConflict, b))"
  using assms by (auto simp: saveOperation_def)

theorem saveOperation_atomic_witness:
  "saveOperation example_backend ''doc1'' [Insert ''x''] 3
     = (Inl ConcurrencyConflict, example_backend)
   \<and> fst (saveOperation example_backend ''doc1'' [Insert ''x''] 2) = Inr ()
   \<and> history (snd (saveOperation example_backend ''doc1'' [Insert ''x''] 2)) ''doc1''
       = Some [[Insert ''Hello''], [Insert ''x'']]
   \<and> map_option doc_v
         (documents (snd (saveOperation example_backend ''doc1'' [Insert ''x''] 2)) ''doc1'')
       = Some 2"
  using saveOperation_atomic [of example_backend "''doc1''" example_record
          "[[Insert ''Hello'']]" "[Insert ''x'']" 3]
        saveOperation_atomic [of example_backend "''doc1''" example_record
          "[[Insert ''Hello'']]" "[Insert ''x'']" 2]
  by (simp add: example_backend_def example_record_def)

section \<open>Properties of the server\<close>

lemma foldl_Inl:
  "foldl (\<lambda>acc past_op. case acc of Inl e \<Rightarrow> Inl e | Inr a \<Rightarrow> f a past_op) (Inl e) xs
     = Inl e"
  by (induction xs) auto

lemma catch_up_fold: "catch_up type op past = transform_fold type op past"
  unfolding transform_fold_def
  by (induction past arbitrary: op) (auto simp: foldl_Inl split: sum.splits)

lemma getHistory_log_entries:
  assumes "history b docId = Some ops" and "0 \<le> revision"
  shows "getHistory b docId revision None = log_entries ops revision (int (length ops))"
proof -
  have "drop (nat revision) ops = map (\<lambda>i. ops ! i) [nat revision ..< length ops]"
    by (metis map_nth drop_map drop_upt add_0)
  then show ?thesis
    using assms
    by (auto simp: getHistory_def js_slice_from_def js_index_def log_entries_def min_def)
qed

text \<open>
  A call that no other call overlaps, on a known document with a registered type, the
  document's log holding its \<open>v\<close> operations, and a revision \<open>0 \<le> revision \<le> v\<close>: the
  committed and returned operation is the left fold of \<open>transform(acc, past_op,
  "right")\<close> over the log entries \<open>revision, ..., v - 1\<close>, oldest first; when
  \<open>revision = v\<close> it is \<open>op\<close> itself; the returned revision is \<open>v + 1\<close>. (When a
  transform of the fold throws, the call throws the same error and commits nothing.)
\<close>

theorem submitOperation_catch_up:
  assumes "documents (backend srv) docId = Some record"
    and "types srv (doc_type record) = Some type"
    and "history (backend srv) docId = Some ops"
    and "int (length ops) = doc_v record"
    and "0 \<le> revision" and "revision \<le> doc_v record"
  shows "submitOperation srv docId op revision =
           (case transform_fold type op (log_entries ops revision (doc_v record)) of
              Inl e \<Rightarrow> (Inl e, srv)
            | Inr op' \<Rightarrow> (Inr (op', doc_v record + 1), committed srv docId record ops op'))
         \<and> (revision = doc_v record \<longrightarrow>
              submitOperation srv docId op revision =
                (Inr (op, doc_v record + 1), committed srv docId record ops op))"
proof -
  have eq: "revision = doc_v record \<Longrightarrow> log_entries ops revision (doc_v record) = []"
    by (simp add: log_entries_def)
  have "submitOperation srv docId op revision =
           (case transform_fold type op (log_entries ops revision (doc_v record)) of
              Inl e \<Rightarrow> (Inl e, srv)
            | Inr op' \<Rightarrow> (Inr (op', doc_v record + 1), committed srv docId record ops op'))"
  proof (cases "revision < doc_v record")
    case True
    then show ?thesis
      using assms getHistory_log_entries[OF assms(3) assms(5)]
      by (auto simp: submitOperation_def submitOperation_checks_def submitOperation_commit_def
          getRecord_def catch_up_fold saveOperation_def committed_def Let_def
          split: sum.splits)
  next
    case False
    with assms have "revision = doc_v record" by simp
    then show ?thesis
      using assms eq
      by (auto simp: submitOperation_def submitOperation_checks_def submitOperation_commit_def
          getRecord_def saveOperation_def committed_def transform_fold_def Let_def
          split: sum.splits)
  qed
  then show ?thesis using eq by (auto simp: transform_fold_def)
qed

lemma example_transform:
  "text_transform [Insert ''World''] [Insert ''Hello''] Right
     = Inr [Retain 5, Insert ''World'']"
  by code_simp

theorem submitOperation_catch_up_witness:
  "submitOperation example_server ''doc1'' [Insert ''World''] 0 =
     (Inr ([Retain 5, Insert ''World''], 2),
      committed example_server ''doc1'' example_record [[Insert ''Hello'']]
        [Retain 5, Insert ''World''])
   \<and> fst (submitOperation example_server ''doc1'' [Insert ''!''] 1) = Inr ([Insert ''!''], 2)"
  using submitOperation_catch_up [of example_server "''doc1''" example_record TextType
          "[[Insert ''Hello'']]" 0 "[Insert ''World'']"]
        submitOperation_catch_up [of example_server "''doc1''" example_record TextType
          "[[Insert ''Hello'']]" 1 "[Insert ''!'']"]
  by (simp add: example_server_def example_backend_def example_record_def log_entries_def
      transform_fold_def TextType_def example_transform)

lemma example_transform_tie:
  "text_transform [Retain 5, Insert ''World''] [Retain 5, Insert ''!''] Right
     = Inr [Retain 6, Insert ''World'']"
  by code_simp

lemma example_after_B_eq:
  "submitOperation example_server ''doc1'' [Retain 5, Insert ''!''] 1 =
     (Inr ([Retain 5, Insert ''!''], 2),
      \<lparr> backend =
          \<lparr> documents = [''doc1'' \<mapsto> example_record \<lparr> doc_v := 2 \<rparr>],
            history = [''doc1'' \<mapsto> [[Insert ''Hello''], [Retain 5, Insert ''!'']]] \<rparr>,
        types = [''text'' \<mapsto> TextType] \<rparr>)"
  by (simp add: submitOperation_def submitOperation_checks_def submitOperation_commit_def
      getRecord_def saveOperation_def example_server_def example_backend_def
      example_record_def)

text \<open>
  C3 does not hold for a call that another call overlaps. On the concrete server
  (\<open>doc1\<close> at \<open>v = 1\<close>, log \<open>[[{i: "Hello"}]]\<close>) two calls are started together:
  A is \<open>submitOperation("doc1", [{i: "World"}], 0)\<close> and B is \<open>submitOperation("doc1",
  [{r: 5}, {i: "!"}], 1)\<close>. The stretches run in turn, as the conjuncts list them:
  \<^item> A's \<open>getRecord\<close> hands out the stored record (B's does the same);
  \<^item> A's checks pass and fetch the history \<open>[[{i: "Hello"}]]\<close>; A suspends;
  \<^item> B, at the current revision, fetches nothing and commits \<open>[{r: 5}, {i: "!"}]\<close> as
    revision 2;
  \<^item> the record A holds is the stored one, and now has \<open>v = 2\<close>;
  \<^item> A resumes: it transforms against the one operation it fetched, reads \<open>v = 2\<close>, and
    \<open>saveOperation\<close> accepts revision 3: A returns \<open>[{r: 5}, {i: "World"}]\<close> with
    revision 3;
  \<^item> the log then holds A's operation third;
  \<^item> the fold over the log entries 0 and 1 that precede it is \<open>[{r: 6}, {i: "World"}]\<close>.

  So the operation committed at revision 3 is not the fold over the entries before it:
  it was never transformed against B's operation.
\<close>

theorem submitOperation_overlapped_stale:
  "getRecord (backend example_server) ''doc1'' = Inr example_record
   \<and> submitOperation_checks example_server ''doc1'' example_record 0
       = Inr (TextType, Some [[Insert ''Hello'']])
   \<and> fst (submitOperation example_server ''doc1'' [Retain 5, Insert ''!''] 1)
       = Inr ([Retain 5, Insert ''!''], 2)
   \<and> getRecord (backend example_after_B) ''doc1'' = Inr (example_record \<lparr> doc_v := 2 \<rparr>)
   \<and> fst (submitOperation_commit example_after_B ''doc1'' (example_record \<lparr> doc_v := 2 \<rparr>)
            TextType [Insert ''World''] (Some [[Insert ''Hello'']]))
       = Inr ([Retain 5, Insert ''World''], 3)
   \<and> history (backend (snd (submitOperation_commit example_after_B ''doc1''
            (example_record \<lparr> doc_v := 2 \<rparr>) TextType [Insert ''World'']
            (Some [[Insert ''Hello'']])))) ''doc1''
       = Some [[Insert ''Hello''], [Retain 5, Insert ''!''], [Retain 5, Insert ''World'']]
   \<and> transform_fold TextType [Insert ''World'']
         (log_entries [[Insert ''Hello''], [Retain 5, Insert ''!'']] 0 2)
       = Inr [Retain 6, Insert ''World'']"
proof -
  have upt: "[0..<2] = [0, Suc 0]" by (simp add: upt_rec)
  show ?thesis
    unfolding example_after_B_def example_after_B_eq
    by (simp add: submitOperation_checks_def submitOperation_commit_def getRecord_def
        getHistory_def js_slice_from_def js_index_def saveOperation_def
        example_server_def example_backend_def example_record_def
        transform_fold_def log_entries_def upt TextType_def
        example_transform example_transform_tie)
qed

text \<open>
  C6. On a known document the checks run in this order: an unregistered type name
  fails with \<open>TypeUnknown\<close>; with the type registered, a revision above \<open>v\<close> fails with
  \<open>RevisionFromFuture\<close>. Either way the server, with its records and logs, is
  returned as it was.
\<close>

theorem submitOperation_rejects:
  assumes "documents (backend srv) docId = Some record"
  shows "(types srv (doc_type record) = None \<longrightarrow>
            submitOperation srv docId op revision = (Inl TypeUnknown, srv))
       \<and> (types srv (doc_type record) \<noteq> None \<and> revision > doc_v record \<longrightarrow>
            submitOperation srv docId op revision = (Inl RevisionFromFuture, srv))"
  using assms by (auto simp: submitOperation_def submitOperation_checks_def getRecord_def)

theorem submitOperation_rejects_witness:
  "submitOperation (new_Server example_backend) ''doc1'' [Insert ''x''] 1
     = (Inl TypeUnknown, new_Server example_backend)
   \<and> submitOperation example_server ''doc1'' [Insert ''x''] 2
     = (Inl RevisionFromFuture, example_server)"
  using submitOperation_rejects [of "new_Server example_backend" "''doc1''" example_record
          "[Insert ''x'']" 1]
        submitOperation_rejects [of example_server "''doc1''" example_record
          "[Insert ''x'']" 2]
  by (simp add: example_server_def example_backend_def example_record_def new_Server_def)

text \<open>
  C9, as the specification states it, does not hold: registering a different type under
  a name that is taken does not fail. The registry then holds the new type.
\<close>

theorem registerType_conflict_counterexample:
  "other_text_type \<noteq> TextType
   \<and> ot_name other_text_type = ot_name TextType
   \<and> types example_server ''text'' = Some TextType
   \<and> types (registerType example_server other_text_type) ''text'' = Some other_text_type"
proof -
  have "ot_create other_text_type \<noteq> ot_create TextType"
    by (simp add: other_text_type_def TextType_def)
  then have "other_text_type \<noteq> TextType" by auto
  then show ?thesis
    by (simp add: registerType_def example_server_def other_text_type_def TextType_def)
qed

text \<open>
  C9, amended. \<open>registerType\<close> has no failing path: it stores the type under its name,
  replacing whatever was registered under that name, and leaves the backend alone.
  Registering the same type again changes nothing.
\<close>

theorem registerType_replaces:
  "types (registerType srv type) = (types srv)(ot_name type \<mapsto> type)
   \<and> backend (registerType srv type) = backend srv
   \<and> registerType (registerType srv type) type = registerType srv type"
  by (simp add: registerType_def)

section \<open>Properties of the text type\<close>

text \<open>
  C7. The insert-against-insert tie-break on the test's operations: as the left
  operand \<open>[{r:3},{i:"A"}]\<close> emits its insert first and then retains the other insert;
  as the right operand \<open>[{r:3},{i:"B"}]\<close> first retains the other insert.
\<close>

theorem transform_insert_insert_tie_break:
  "text_transform [Retain 3, Insert ''A''] [Retain 3, Insert ''B''] Left
     = Inr [Retain 3, Insert ''A'', Retain 1]
   \<and> text_transform [Retain 3, Insert ''B''] [Retain 3, Insert ''A''] Right
     = Inr [Retain 4, Insert ''B'']"
  by code_simp

lemma checkOp_unknown: "checkOp op = (if has_unknown op then Inl OpMalformed else Inr ())"
  by (induction op) (auto simp: has_unknown_def elim: isInsert.elims isRetain.elims isDelete.elims)

lemma sized_nonneg: "sized c \<Longrightarrow> 0 \<le> getLength c"
  by (cases c) auto

lemma normalized_nonneg: "normalized op \<Longrightarrow> nonneg op"
  by (induction op rule: normalized.induct) (auto simp: nonneg_def sized_nonneg)

lemma js_slice_take_drop:
  "0 \<le> i \<Longrightarrow> 0 \<le> n \<Longrightarrow> i + n \<le> int (length s) \<Longrightarrow>
   js_slice s i (i + n) = take (nat n) (drop (nat i) s)"
  by (auto simp: js_slice_def js_index_def min_def nat_add_distrib)

lemma js_slice_from_drop: "0 \<le> i \<Longrightarrow> js_slice_from s i = drop (nat i) s"
  by (auto simp: js_slice_from_def js_index_def min_def)

lemma apply_loop_app:
  "nonneg op \<Longrightarrow> 0 \<le> index \<Longrightarrow> index \<le> int (length snapshot) \<Longrightarrow>
   apply_loop snapshot op result index =
     (case app (drop (nat index) snapshot) op of
        None \<Rightarrow> Inl OpOutOfBounds
      | Some r \<Rightarrow> Inr (result @ r))"
proof (induction snapshot op result index rule: apply_loop.induct)
  case (1 snapshot result index)
  then show ?case by (auto simp: js_slice_from_drop)
next
  case (2 snapshot i op result index)
  then show ?case by (auto simp: nonneg_def split: option.splits)
next
  case (3 snapshot r op result index)
  then have r: "0 \<le> r" by (simp add: nonneg_def)
  show ?case
  proof (cases "index + r > int (length snapshot)")
    case True
    then show ?thesis using 3 by auto
  next
    case False
    then have "apply_loop snapshot op (result @ js_slice snapshot index (index + r)) (index + r)
        = (case app (drop (nat (index + r)) snapshot) op of
        None \<Rightarrow> Inl OpOutOfBounds
      | Some ra \<Rightarrow> Inr ((result @ js_slice snapshot index (index + r)) @ ra))"
      using 3 r by (intro "3.IH") (auto simp: nonneg_def)
    then show ?thesis
      using False r 3(3,4)
      by (auto simp: js_slice_take_drop nat_add_distrib add.commute split: option.splits)
  qed
next
  case (4 snapshot d op result index)
  then have r: "0 \<le> d" by (simp add: nonneg_def)
  show ?case
  proof (cases "index + d > int (length snapshot)")
    case True
    then show ?thesis using 4 by auto
  next
    case False
    then have "apply_loop snapshot op result (index + d)
        = (case app (drop (nat (index + d)) snapshot) op of
        None \<Rightarrow> Inl OpOutOfBounds
      | Some ra \<Rightarrow> Inr (result @ ra))"
      using 4 r by (intro "4.IH") (auto simp: nonneg_def)
    then show ?thesis
      using False r 4(3,4)
      by (auto simp: nat_add_distrib add.commute split: option.splits)
  qed
next
  case (5 snapshot op result index)
  then show ?case by (auto simp: nonneg_def)
qed

lemma overruns_shift: "overruns len op i = overruns (len - i) op 0"
proof (induction op arbitrary: len i)
  case Nil
  then show ?case by simp
next
  case (Cons c op)
  show ?case
  proof (cases c)
    case (Retain n)
    then show ?thesis
      using Cons.IH[of len "i + n"] Cons.IH[of "len - i" n] by (auto simp: algebra_simps)
  next
    case (Delete n)
    then show ?thesis
      using Cons.IH[of len "i + n"] Cons.IH[of "len - i" n] by (auto simp: algebra_simps)
  qed (use Cons.IH[of len i] in auto)
qed

lemma traversed_nonneg: "nonneg op \<Longrightarrow> 0 \<le> traversed op"
  by (induction op rule: traversed.induct) (auto simp: nonneg_def)

lemma app_overruns:
  "nonneg op \<Longrightarrow>
   app s op = (if overruns (int (length s)) op 0 then None
               else Some (emitted s op @ drop (nat (traversed op)) s))"
proof (induction op arbitrary: s)
  case Nil
  then show ?case by simp
next
  case (Cons c op)
  then have nn: "nonneg op" and c: "0 \<le> getLength c" by (auto simp: nonneg_def)
  show ?case
  proof (cases c)
    case (Insert t)
    then show ?thesis using Cons.IH[OF nn, of s] by auto
  next
    case (Retain n)
    then show ?thesis
      using Cons.IH[OF nn, of "drop (nat n) s"] c overruns_shift[of "int (length s)" op n]
        traversed_nonneg[OF nn]
      by (auto simp: nat_add_distrib add.commute)
  next
    case (Delete n)
    then show ?thesis
      using Cons.IH[OF nn, of "drop (nat n) s"] c overruns_shift[of "int (length s)" op n]
        traversed_nonneg[OF nn]
      by (auto simp: nat_add_distrib add.commute)
  next
    case Unknown
    then show ?thesis using Cons.IH[OF nn, of s] by auto
  qed
qed

text \<open>
  C5. For a well-formed operation, apply fails with the out-of-bounds error exactly when
  the scan from index 0 has a Retain or Delete that would pass the end of the snapshot;
  otherwise it returns what the components write, followed by the part of the snapshot
  the scan did not reach (the lenient tail).
\<close>

theorem apply_bounds:
  assumes "well_formed op"
  shows "text_apply snapshot op =
           (if overruns (int (length snapshot)) op 0 then Inl OpOutOfBounds
            else Inr (emitted snapshot op @ drop (nat (traversed op)) snapshot))"
proof -
  from assms have nn: "nonneg op" and k: "\<not> has_unknown op"
    by (auto simp: well_formed_def normalized_nonneg)
  show ?thesis
    using apply_loop_app[OF nn, of 0 snapshot "[]"] app_overruns[OF nn, of snapshot] k
    by (auto simp: text_apply_def checkOp_unknown)
qed

theorem apply_bounds_witness:
  "well_formed [Retain 1, Delete 1, Retain 2]
   \<and> text_apply ''Hello'' [Retain 1, Delete 1, Retain 2] = Inr ''Hllo''
   \<and> well_formed [Retain 2, Delete 4]
   \<and> text_apply ''Hello'' [Retain 2, Delete 4] = Inl OpOutOfBounds"
  using apply_bounds [of "[Retain 1, Delete 1, Retain 2]" "''Hello''"]
        apply_bounds [of "[Retain 2, Delete 4]" "''Hello''"]
  by (simp add: well_formed_def has_unknown_def)

text \<open>
  C8, as the specification states it, does not hold: an operation that is not normalized
  is accepted by all three functions.
\<close>

theorem malformed_counterexample:
  "\<not> normalized [Retain 1, Retain 2]
   \<and> text_apply ''abc'' [Retain 1, Retain 2] = Inr ''abc''
   \<and> text_transform [Retain 1, Retain 2] [] Left = Inr [Retain 3]
   \<and> text_compose [Retain 1, Retain 2] [] = Inr [Retain 3]"
  by code_simp

text \<open>
  C8, amended. apply, transform and compose fail with the malformed-operation error
  exactly when an input operation has an unknown component. Without unknown components
  transform and compose return the normalized result of their loops; in particular they
  never fail on well-formed inputs.
\<close>

theorem malformed_iff_unknown:
  "(text_apply snapshot op = Inl OpMalformed \<longleftrightarrow> has_unknown op)
   \<and> (text_transform opA opB side = Inl OpMalformed \<longleftrightarrow> has_unknown opA \<or> has_unknown opB)
   \<and> (text_compose opA opB = Inl OpMalformed \<longleftrightarrow> has_unknown opA \<or> has_unknown opB)
   \<and> (\<not> has_unknown opA \<and> \<not> has_unknown opB \<longrightarrow>
        text_transform opA opB side = Inr (normalize (transform_loop opA opB side 0 0 0 0 []))
        \<and> text_compose opA opB = Inr (normalize (compose_loop opA opB 0 0 0 0 [])))
   \<and> (well_formed opA \<and> well_formed opB \<longrightarrow>
        (\<exists>r. text_transform opA opB side = Inr r) \<and> (\<exists>r. text_compose opA opB = Inr r))"
proof -
  have "apply_loop snapshot op r i \<noteq> Inl OpMalformed" for r i
    by (induction snapshot op r i rule: apply_loop.induct) auto
  then show ?thesis
    by (auto simp: text_apply_def text_transform_def text_compose_def checkOp_unknown
        well_formed_def)
qed

theorem malformed_iff_unknown_witness:
  "text_apply ''abc'' [Retain 1, Unknown] = Inl OpMalformed
   \<and> text_transform [Retain 1, Retain 2] [Unknown] Left = Inl OpMalformed
   \<and> text_compose [Unknown] [] = Inl OpMalformed
   \<and> (\<exists>r. text_transform [Retain 1, Insert ''a''] [Delete 1] Right = Inr r)
   \<and> (\<exists>r. text_compose [Retain 1, Insert ''a''] [Delete 1] = Inr r)"
  using malformed_iff_unknown [of "''abc''" "[Retain 1, Unknown]" "[Retain 1, Retain 2]"
          "[Unknown]" Left]
        malformed_iff_unknown [of "''abc''" "[]" "[Unknown]" "[]" Left]
        malformed_iff_unknown [of "''abc''" "[]" "[Retain 1, Insert ''a'']" "[Delete 1]" Right]
  by (simp add: has_unknown_def well_formed_def)

subsection \<open>The loop of transform, on what is left of the operations\<close>

lemma advance_shorter:
  assumes "a \<noteq> [] \<or> b \<noteq> []"
  shows "length (advance a (minLen (hd_c a) 0 (hd_c b) 0))
         + length (advance b (minLen (hd_c a) 0 (hd_c b) 0)) < length a + length b"
  using assms
  by (cases a; cases b) (auto simp: advance_def minLen_def hd_c_def min_def)

lemma shrink_0 [simp]: "shrink c 0 = c"
  by (cases c) auto

lemma remaining_0: "remaining op 0 0 = op"
  by (cases op) (auto simp: remaining_def)

lemma remaining_Suc: "i < length op \<Longrightarrow> drop (Suc i) op = remaining op (Suc i) 0"
  by (auto simp: remaining_def Cons_nth_drop_Suc)

lemma tl_remaining:
  assumes "i < length op"
  shows "tl (remaining op i offset) = remaining op (Suc i) 0"
proof -
  have "tl (remaining op i offset) = drop (Suc i) op"
    using assms by (simp add: remaining_def)
  then show ?thesis using remaining_Suc[OF assms] by simp
qed

lemma remaining_exhausted: "\<not> i < length op \<Longrightarrow> remaining op i offset = []"
  by (simp add: remaining_def)

lemma hd_c_remaining:
  "hd_c (remaining op i offset) = map_option (\<lambda>c. shrink c offset) (cursor op i)"
  by (simp add: hd_c_def remaining_def cursor_def)

lemma isInsert_shrink [simp]: "isInsert (shrink c k) = isInsert c"
  and isRetain_shrink [simp]: "isRetain (shrink c k) = isRetain c"
  and isDelete_shrink [simp]: "isDelete (shrink c k) = isDelete c"
  by (cases c; simp)+

lemma getLength_shrink:
  "isRetain c \<or> isDelete c \<Longrightarrow> getLength (shrink c k) = getLength c - k"
  by (cases c) auto

lemma minLen_remaining:
  assumes "\<not> has_unknown opA" "\<not> has_unknown opB"
    and "\<not> cIsInsert (cursor opA iA)" "\<not> cIsInsert (cursor opB iB)"
  shows "minLen (hd_c (remaining opA iA offsetA)) 0 (hd_c (remaining opB iB offsetB)) 0
       = minLen (cursor opA iA) offsetA (cursor opB iB) offsetB"
proof -
  have a: "iA < length opA \<Longrightarrow> isRetain (opA ! iA) \<or> isDelete (opA ! iA)"
    using assms(1,3) by (cases "opA ! iA") (auto simp: has_unknown_def cursor_def dest: nth_mem)
  have b: "iB < length opB \<Longrightarrow> isRetain (opB ! iB) \<or> isDelete (opB ! iB)"
    using assms(2,4) by (cases "opB ! iB") (auto simp: has_unknown_def cursor_def dest: nth_mem)
  show ?thesis
    using a b by (auto simp: hd_c_remaining minLen_def cursor_def getLength_shrink)
qed

lemma advance_remaining:
  assumes "\<not> has_unknown op" and "\<not> cIsInsert (cursor op i)"
  shows "advance (remaining op i offset) m
       = remaining op (if consumed op i (offset + m) then i + 1 else i)
                      (if consumed op i (offset + m) then 0 else offset + m)"
proof (cases "i < length op")
  case True
  then have "isRetain (op ! i) \<or> isDelete (op ! i)"
    using assms by (cases "op ! i") (auto simp: has_unknown_def cursor_def dest: nth_mem)
  then show ?thesis
    using True
    by (cases "op ! i")
       (auto simp: advance_def remaining_def consumed_def cursor_def Cons_nth_drop_Suc)
next
  case False
  then show ?thesis by (auto simp: advance_def remaining_def consumed_def)
qed

lemma at_whole_step:
  assumes "\<not> cIsInsert (cursor op i)"
  shows "at_whole op (if consumed op i (offset + m) then i + 1 else i)
                     (if consumed op i (offset + m) then 0 else offset + m)"
  using assms by (auto simp: at_whole_def cursor_def consumed_def)

lemma at_whole_next: "at_whole op i offset \<Longrightarrow> cIsInsert (cursor op i) \<Longrightarrow> at_whole op (i + 1) offset"
  by (auto simp: at_whole_def cursor_def split: if_splits)

declare transform_loop.simps [simp del] transform_list.simps [simp del]

lemma transform_loop_list:
  "\<not> has_unknown opA \<Longrightarrow> \<not> has_unknown opB \<Longrightarrow>
         at_whole opA iA offsetA \<Longrightarrow> at_whole opB iB offsetB \<Longrightarrow>
         transform_loop opA opB side iA iB offsetA offsetB newOp
         = foldl append_op newOp
             (transform_list (remaining opA iA offsetA) (remaining opB iB offsetB) side)"
proof (induction opA opB side iA iB offsetA offsetB newOp rule: transform_loop.induct)
  case (1 opA opB side iA iB offsetA offsetB newOp)
  note assms = "1.prems"(1,2)
  let ?cA = "cursor opA iA" and ?cB = "cursor opB iB"
  let ?a = "remaining opA iA offsetA" and ?b = "remaining opB iB offsetB"
  show ?case
  proof (cases "iA < length opA \<or> iB < length opB")
    case False
    then show ?thesis
      by (subst transform_loop.simps, subst transform_list.simps) (simp add: remaining_def)
  next
    case live: True
    then have ne: "?a \<noteq> [] \<or> ?b \<noteq> []" by (auto simp: remaining_def)
    show ?thesis
    proof (cases "cIsInsert ?cA")
      case insA: True
      then have iA: "iA < length opA" and offA: "offsetA = 0"
        using "1.prems" by (auto simp: cursor_def at_whole_def split: if_splits)
      have tlA: "tl ?a = remaining opA (iA + 1) offsetA"
        using iA offA by (simp add: tl_remaining)
      have ctext: "cText (hd_c ?a) = cText ?cA" using offA by (simp add: hd_c_remaining cursor_def iA)
      show ?thesis
      proof (cases "cIsInsert ?cB \<and> side \<noteq> Left")
        case True
        then have iB: "iB < length opB" and offB: "offsetB = 0"
          using "1.prems" by (auto simp: cursor_def at_whole_def split: if_splits)
        have tlB: "tl ?b = remaining opB (iB + 1) offsetB"
          using iB offB by (simp add: tl_remaining)
        have len: "cGetLength (hd_c ?b) = cGetLength ?cB" using offB by (simp add: hd_c_remaining cursor_def iB)
        have "transform_loop opA opB side iA (iB + 1) offsetA offsetB
                (append_op newOp (Retain (fin (cGetLength ?cB))))
              = foldl append_op (append_op newOp (Retain (fin (cGetLength ?cB))))
                  (transform_list ?a (remaining opB (iB + 1) offsetB) side)"
          using live insA True "1.prems" at_whole_next[of opB iB offsetB]
          by (intro "1.IH"(2)) auto
        then show ?thesis
          using live insA True ne iA iB offA offB
          by (subst transform_loop.simps, subst transform_list.simps)
             (simp add: hd_c_remaining tl_remaining cursor_def)
      next
        case False
        have "transform_loop opA opB side (iA + 1) iB offsetA offsetB
                (append_op newOp (Insert (cText ?cA)))
              = foldl append_op (append_op newOp (Insert (cText ?cA)))
                  (transform_list (remaining opA (iA + 1) offsetA) ?b side)"
        proof (cases "cIsInsert ?cB")
          case True
          then show ?thesis
            using live insA False "1.prems" at_whole_next[of opA iA offsetA]
            by (intro "1.IH"(1)) auto
        next
          case False
          then show ?thesis
            using live insA "1.prems" at_whole_next[of opA iA offsetA]
            by (intro "1.IH"(3)) auto
        qed
        then show ?thesis
          using live insA False ne iA offA
          by (subst transform_loop.simps, subst transform_list.simps)
             (auto simp add: hd_c_remaining tl_remaining cursor_def Let_def)
      qed
    next
      case notA: False
      show ?thesis
      proof (cases "cIsInsert ?cB")
        case True
        then have iB: "iB < length opB" and offB: "offsetB = 0"
          using "1.prems" by (auto simp: cursor_def at_whole_def split: if_splits)
        have tlB: "tl ?b = remaining opB (iB + 1) offsetB"
          using iB offB by (simp add: tl_remaining)
        have "transform_loop opA opB side iA (iB + 1) offsetA offsetB
                (append_op newOp (Retain (fin (cGetLength ?cB))))
              = foldl append_op (append_op newOp (Retain (fin (cGetLength ?cB))))
                  (transform_list ?a (remaining opB (iB + 1) offsetB) side)"
          using live notA True "1.prems" at_whole_next[of opB iB offsetB]
          by (intro "1.IH"(4)) auto
        then show ?thesis
          using live notA True ne iB offB
          by (subst transform_loop.simps, subst transform_list.simps)
             (auto simp add: hd_c_remaining tl_remaining cursor_def Let_def)
      next
        case notB: False
        let ?m = "minLen ?cA offsetA ?cB offsetB"
        let ?new = "(if cIsRetain ?cA \<and> cIsRetain ?cB then append_op newOp (Retain ?m)
                   else if cIsDelete ?cA \<and> cIsRetain ?cB then append_op newOp (Delete ?m)
                   else newOp)"
        let ?iA = "if consumed opA iA (offsetA + ?m) then iA + 1 else iA"
        let ?iB = "if consumed opB iB (offsetB + ?m) then iB + 1 else iB"
        let ?oA = "if consumed opA iA (offsetA + ?m) then 0 else offsetA + ?m"
        let ?oB = "if consumed opB iB (offsetB + ?m) then 0 else offsetB + ?m"
        have m: "minLen (hd_c ?a) 0 (hd_c ?b) 0 = ?m"
          using minLen_remaining[OF assms notA notB] .
        have IH: "transform_loop opA opB side ?iA ?iB ?oA ?oB ?new
              = foldl append_op ?new
                  (transform_list (remaining opA ?iA ?oA) (remaining opB ?iB ?oB) side)"
          using live notA notB at_whole_step[OF notA] at_whole_step[OF notB] assms
          by (intro "1.IH"(5)) auto
        have kinds: "cIsRetain (hd_c ?a) = cIsRetain ?cA" "cIsRetain (hd_c ?b) = cIsRetain ?cB"
          "cIsDelete (hd_c ?a) = cIsDelete ?cA" "cIsInsert (hd_c ?a) = cIsInsert ?cA"
          "cIsInsert (hd_c ?b) = cIsInsert ?cB"
          by (auto simp: hd_c_remaining cursor_def)
        show ?thesis
          apply (subst transform_loop.simps, subst transform_list.simps)
          using live notA notB ne IH
          by (auto simp add: m kinds Let_def advance_remaining[OF assms(1) notA]
              advance_remaining[OF assms(2) notB])
      qed
    qed
  qed
qed

subsection \<open>Normalizing does not change what an operation does\<close>

lemma nonneg_Cons [simp]: "nonneg (c # op) = (0 \<le> getLength c \<and> nonneg op)"
  by (simp add: nonneg_def)

lemma nonneg_Nil [simp]: "nonneg []"
  by (simp add: nonneg_def)

lemma nonneg_append [simp]: "nonneg (xs @ ys) = (nonneg xs \<and> nonneg ys)"
  by (simp add: nonneg_def)

lemma has_unknown_Cons [simp]: "has_unknown (c # op) = (c = Unknown \<or> has_unknown op)"
  by (auto simp: has_unknown_def)

lemma has_unknown_Nil [simp]: "\<not> has_unknown []"
  by (simp add: has_unknown_def)

lemma has_unknown_append [simp]: "has_unknown (xs @ ys) = (has_unknown xs \<or> has_unknown ys)"
  by (auto simp: has_unknown_def)

lemma app_cong_prefix:
  "(\<And>s. app s x = app s y) \<Longrightarrow> app s (pre @ x) = app s (pre @ y)"
proof (induction pre arbitrary: s)
  case Nil
  then show ?case by simp
next
  case (Cons c pre)
  then show ?case by (cases c) auto
qed

lemma app_merge_Retain:
  "0 \<le> a \<Longrightarrow> 0 \<le> b \<Longrightarrow> app s (Retain (a + b) # r) = app s (Retain a # Retain b # r)"
  by (auto simp: nat_add_distrib take_add add.commute split: option.splits)

lemma app_merge_Delete:
  "0 \<le> a \<Longrightarrow> 0 \<le> b \<Longrightarrow> app s (Delete (a + b) # r) = app s (Delete a # Delete b # r)"
  by (auto simp: nat_add_distrib add.commute)

lemma app_merge_Insert: "app s (Insert (a @ b) # r) = app s (Insert a # Insert b # r)"
  by (auto split: option.splits)

lemma app_merge_last:
  "0 \<le> getLength l \<Longrightarrow> 0 \<le> getLength c \<Longrightarrow> app s (merge_last l c @ r) = app s (l # c # r)"
  by (cases "(l, c)" rule: merge_last.cases)
     (simp_all add: app_merge_Retain app_merge_Delete app_merge_Insert del: app.simps)

lemma nonneg_merge_last:
  "0 \<le> getLength l \<Longrightarrow> 0 \<le> getLength c \<Longrightarrow> nonneg (merge_last l c)"
  by (cases "(l, c)" rule: merge_last.cases) simp_all

lemma unknown_merge_last:
  "l \<noteq> Unknown \<Longrightarrow> c \<noteq> Unknown \<Longrightarrow> \<not> has_unknown (merge_last l c)"
  by (cases "(l, c)" rule: merge_last.cases) simp_all

lemma app_skip_empty:
  "c = Retain 0 \<or> c = Insert [] \<or> c = Delete 0 \<Longrightarrow> app s (c # r) = app s r"
  by (auto split: option.splits)

lemma app_append_op:
  assumes "nonneg acc" and "0 \<le> getLength c"
  shows "app s (append_op acc c @ r) = app s (acc @ c # r)"
proof (cases "c = Retain 0 \<or> c = Insert [] \<or> c = Delete 0")
  case True
  then have "append_op acc c = acc" by (auto simp: append_op_def)
  then show ?thesis using app_cong_prefix[of "r" "c # r" s acc] app_skip_empty[OF True] by simp
next
  case False
  show ?thesis
  proof (cases "acc = []")
    case True
    then show ?thesis using False by (simp add: append_op_def)
  next
    case ne: False
    then have acc: "acc = butlast acc @ [last acc]" by simp
    have l: "0 \<le> getLength (last acc)"
      using assms(1) ne by (metis acc nonneg_append nonneg_Cons)
    have eq: "butlast acc @ (last acc # c # r) = acc @ c # r"
      using acc by (metis append.assoc append_Cons append_Nil)
    have "app s (append_op acc c @ r) = app s (butlast acc @ (merge_last (last acc) c @ r))"
      using False ne by (simp add: append_op_def)
    also have "\<dots> = app s (butlast acc @ (last acc # c # r))"
      by (rule app_cong_prefix) (rule app_merge_last[OF l assms(2)])
    finally show ?thesis unfolding eq .
  qed
qed

lemma nonneg_append_op:
  assumes "nonneg acc" and "0 \<le> getLength c"
  shows "nonneg (append_op acc c)"
proof (cases "acc = []")
  case True
  then show ?thesis using assms by (simp add: append_op_def)
next
  case False
  then have acc: "acc = butlast acc @ [last acc]" by simp
  then have "nonneg (butlast acc)" "0 \<le> getLength (last acc)"
    using assms(1) by (metis nonneg_append nonneg_Cons)+
  then show ?thesis
    using assms False by (simp add: append_op_def nonneg_merge_last)
qed

lemma unknown_append_op:
  assumes "\<not> has_unknown acc" and "c \<noteq> Unknown"
  shows "\<not> has_unknown (append_op acc c)"
proof (cases "acc = []")
  case True
  then show ?thesis using assms by (simp add: append_op_def)
next
  case False
  then have acc: "acc = butlast acc @ [last acc]" by simp
  then have "\<not> has_unknown (butlast acc)" "last acc \<noteq> Unknown"
    using assms(1) by (metis has_unknown_append has_unknown_Cons)+
  then show ?thesis
    using assms False by (simp add: append_op_def unknown_merge_last)
qed

lemma foldl_append_op:
  "nonneg acc \<Longrightarrow> nonneg xs \<Longrightarrow>
   nonneg (foldl append_op acc xs) \<and> app s (foldl append_op acc xs) = app s (acc @ xs)"
proof (induction xs arbitrary: acc)
  case Nil
  then show ?case by simp
next
  case (Cons x xs)
  then show ?case
    using Cons.IH[of "append_op acc x"] app_append_op[of acc x s xs]
    by (simp add: nonneg_append_op)
qed

lemma foldl_append_op_known:
  "\<not> has_unknown acc \<Longrightarrow> \<not> has_unknown xs \<Longrightarrow> \<not> has_unknown (foldl append_op acc xs)"
  by (induction xs arbitrary: acc) (auto simp: unknown_append_op)

lemma app_normalize: "nonneg xs \<Longrightarrow> app s (normalize xs) = app s xs"
  using foldl_append_op[of "[]" xs s] by (simp add: normalize_def)

lemma nonneg_normalize: "nonneg xs \<Longrightarrow> nonneg (normalize xs)"
  using foldl_append_op[of "[]" xs] by (simp add: normalize_def)

lemma known_normalize: "\<not> has_unknown xs \<Longrightarrow> \<not> has_unknown (normalize xs)"
  using foldl_append_op_known[of "[]" xs] by (simp add: normalize_def)

lemma text_apply_app:
  "nonneg op \<Longrightarrow> \<not> has_unknown op \<Longrightarrow>
   text_apply s op = (case app s op of None \<Rightarrow> Inl OpOutOfBounds | Some r \<Rightarrow> Inr r)"
  using apply_loop_app[of op 0 s "[]"] by (simp add: text_apply_def checkOp_unknown cong: option.case_cong)

subsection \<open>Convergence of transform\<close>

lemma transform_list_Insert_Left:
  "transform_list (Insert x # a) b Left = Insert x # transform_list a b Left"
  by (subst transform_list.simps) (simp add: hd_c_def Let_def)

lemma transform_list_against_Insert_Right:
  "transform_list b (Insert x # a) Right = Retain (int (length x)) # transform_list b a Right"
  by (subst transform_list.simps) (simp add: hd_c_def Let_def)

lemma transform_list_against_Insert:
  "\<not> cIsInsert (hd_c a) \<Longrightarrow>
   transform_list a (Insert y # b) side = Retain (int (length y)) # transform_list a b side"
  by (subst transform_list.simps) (simp add: hd_c_def Let_def)

lemma transform_list_Insert:
  "\<not> cIsInsert (hd_c a) \<Longrightarrow>
   transform_list (Insert y # b) a side = Insert y # transform_list b a side"
  by (subst transform_list.simps) (simp add: hd_c_def Let_def)

lemma transform_list_step:
  "\<not> cIsInsert (hd_c a) \<Longrightarrow> \<not> cIsInsert (hd_c b) \<Longrightarrow> a \<noteq> [] \<or> b \<noteq> [] \<Longrightarrow>
   transform_list a b side =
     (if cIsRetain (hd_c a) \<and> cIsRetain (hd_c b) then [Retain (minLen (hd_c a) 0 (hd_c b) 0)]
      else if cIsDelete (hd_c a) \<and> cIsRetain (hd_c b)
           then [Delete (minLen (hd_c a) 0 (hd_c b) 0)]
      else [])
     @ transform_list (advance a (minLen (hd_c a) 0 (hd_c b) 0))
         (advance b (minLen (hd_c a) 0 (hd_c b) 0)) side"
  by (subst transform_list.simps) (simp add: Let_def)

lemma minLen_commute: "minLen cA 0 cB 0 = minLen cB 0 cA 0"
  by (cases cA; cases cB) (auto simp: minLen_def min.commute)

lemma head_kind:
  "\<not> has_unknown a \<Longrightarrow> \<not> cIsInsert (hd_c a) \<Longrightarrow> cIsDelete (hd_c a) = (\<not> cIsRetain (hd_c a))"
  by (cases a; cases "hd a") (auto simp: hd_c_def)

lemma minLen_bounds:
  assumes "nonneg a" "nonneg b" "a \<noteq> [] \<or> b \<noteq> []"
  shows "0 \<le> minLen (hd_c a) 0 (hd_c b) 0"
    and "a \<noteq> [] \<Longrightarrow> minLen (hd_c a) 0 (hd_c b) 0 \<le> getLength (hd a)"
    and "b \<noteq> [] \<Longrightarrow> minLen (hd_c a) 0 (hd_c b) 0 \<le> getLength (hd b)"
  using assms by (cases a; cases b; auto simp: minLen_def hd_c_def)+

lemma app_head_bound:
  "app s a = Some sa \<Longrightarrow> a \<noteq> [] \<Longrightarrow> \<not> cIsInsert (hd_c a) \<Longrightarrow> \<not> has_unknown a \<Longrightarrow>
   getLength (hd a) \<le> int (length s)"
  by (cases a; cases "hd a") (auto simp: hd_c_def split: if_splits)

lemma advance_ok:
  assumes "nonneg a" "\<not> has_unknown a" "m \<le> getLength (hd a) \<or> a = []"
  shows "nonneg (advance a m)" "\<not> has_unknown (advance a m)"
  using assms by (cases a; cases "hd a"; auto simp: advance_def)+

lemma app_advance:
  assumes "nonneg a" "\<not> has_unknown a" "\<not> cIsInsert (hd_c a)"
    and "0 \<le> m" "m \<le> int (length s)" "a \<noteq> [] \<Longrightarrow> m \<le> getLength (hd a)"
  shows "app s a =
           (case app (drop (nat m) s) (advance a m) of
              None \<Rightarrow> None
            | Some r \<Rightarrow> Some (if cIsDelete (hd_c a) then r else take (nat m) s @ r))"
proof (cases a)
  case Nil
  then show ?thesis by (simp add: advance_def hd_c_def)
next
  case (Cons c a')
  obtain k where k: "m = int k" using assms(4) nonneg_int_cases by blast
  show ?thesis
  proof (cases c)
    case (Retain n)
    then have "m \<le> n" using assms(6) Cons by simp
    then obtain j where j: "n = int (j + k)"
      using k by (metis nonneg_int_cases diff_ge_0_iff_ge of_nat_add diff_add_cancel)
    have tk: "take (j + k) s = take k s @ take j (drop k s)"
      using take_add[of k j s] by (simp only: add.commute[of j k])
    show ?thesis
      using assms(5) unfolding Cons Retain k j
      by (cases "j = 0")
         (auto simp: advance_def hd_c_def tk nat_int_add split: option.splits)
  next
    case (Delete n)
    then have "m \<le> n" using assms(6) Cons by simp
    then obtain j where j: "n = int (j + k)"
      using k by (metis nonneg_int_cases diff_ge_0_iff_ge of_nat_add diff_add_cancel)
    show ?thesis
      using assms(5) unfolding Cons Delete k j
      by (cases "j = 0")
         (auto simp: advance_def hd_c_def nat_int_add split: option.splits)
  qed (use assms Cons in \<open>auto simp: hd_c_def\<close>)
qed

lemma hd_c_simps [simp]: "hd_c [] = None" "hd_c (c # op) = Some c"
  by (simp_all add: hd_c_def)

lemma hd_c_cases:
  obtains (empty) "a = []"
  | (ins) x a' where "a = Insert x # a'"
  | (other) "a \<noteq> []" "\<not> cIsInsert (hd_c a)"
  by (cases a; cases "hd a") (auto simp: hd_c_def)

lemma tp1_list:
  "nonneg a \<Longrightarrow> nonneg b \<Longrightarrow> \<not> has_unknown a \<Longrightarrow> \<not> has_unknown b \<Longrightarrow>
   app s a = Some sa \<Longrightarrow> app s b = Some sb \<Longrightarrow>
   \<exists>r. app sa (transform_list b a Right) = Some r \<and> app sb (transform_list a b Left) = Some r"
proof (induction "length a + length b" arbitrary: a b s sa sb rule: less_induct)
  case less
  note IH = less.hyps
  have nia: "a = [] \<Longrightarrow> \<not> cIsInsert (hd_c a)" by (simp add: hd_c_def)
  have nib: "b = [] \<Longrightarrow> \<not> cIsInsert (hd_c b)" by (simp add: hd_c_def)
  consider (insA) x a' where "a = Insert x # a'"
    | (insB) y b' where "\<not> cIsInsert (hd_c a)" "b = Insert y # b'"
    | (finished) "a = []" "b = []"
    | (step) "\<not> cIsInsert (hd_c a)" "\<not> cIsInsert (hd_c b)" "a \<noteq> [] \<or> b \<noteq> []"
    by (cases a rule: hd_c_cases; cases b rule: hd_c_cases) auto
  then show ?case
  proof cases
    case insA
    then obtain sa' where sa': "app s a' = Some sa'" "sa = x @ sa'"
      using less.prems(5) by (auto split: option.splits)
    obtain r where "app sa' (transform_list b a' Right) = Some r"
      "app sb (transform_list a' b Left) = Some r"
      using IH[of a' b s sa' sb] less.prems insA sa' by auto
    then show ?thesis
      unfolding insA transform_list_Insert_Left transform_list_against_Insert_Right
      using sa' by simp
  next
    case insB
    then obtain sb' where sb': "app s b' = Some sb'" "sb = y @ sb'"
      using less.prems(6) by (auto split: option.splits)
    obtain r where "app sa (transform_list b' a Right) = Some r"
      "app sb' (transform_list a b' Left) = Some r"
      using IH[of a b' s sa sb'] less.prems insB sb' by auto
    then show ?thesis
      unfolding insB(2) transform_list_Insert[OF insB(1)]
        transform_list_against_Insert[OF insB(1)]
      using sb' by simp
  next
    case finished
    then show ?thesis
      using less.prems by (subst transform_list.simps, subst transform_list.simps) simp
  next
    case step
    define m where "m = minLen (hd_c a) 0 (hd_c b) 0"
    have m': "minLen (hd_c b) 0 (hd_c a) 0 = m"
      unfolding m_def by (rule minLen_commute)
    have m0: "0 \<le> m" and ma: "a \<noteq> [] \<Longrightarrow> m \<le> getLength (hd a)"
      and mb: "b \<noteq> [] \<Longrightarrow> m \<le> getLength (hd b)"
      unfolding m_def using minLen_bounds[OF less.prems(1,2) step(3)] by auto
    have ms: "m \<le> int (length s)"
    proof (cases "a = []")
      case True
      then have "b \<noteq> []" using step(3) by simp
      then show ?thesis
        using mb app_head_bound[OF less.prems(6) _ step(2) less.prems(4)] by force
    next
      case False
      then show ?thesis
        using ma app_head_bound[OF less.prems(5) _ step(1) less.prems(3)] by force
    qed
    let ?a = "advance a m" and ?b = "advance b m"
    let ?s = "drop (nat m) s" and ?p = "take (nat m) s"
    have lp: "length ?p = nat m" using ms m0 by simp
    have oka: "nonneg ?a" "\<not> has_unknown ?a"
      using advance_ok[OF less.prems(1,3), of m] ma by auto
    have okb: "nonneg ?b" "\<not> has_unknown ?b"
      using advance_ok[OF less.prems(2,4), of m] mb by auto
    obtain sa' where sa': "app ?s ?a = Some sa'"
      "sa = (if cIsDelete (hd_c a) then sa' else ?p @ sa')"
      using app_advance[OF less.prems(1,3) step(1) m0 ms ma] less.prems(5)
      by (auto split: option.splits)
    obtain sb' where sb': "app ?s ?b = Some sb'"
      "sb = (if cIsDelete (hd_c b) then sb' else ?p @ sb')"
      using app_advance[OF less.prems(2,4) step(2) m0 ms mb] less.prems(6)
      by (auto split: option.splits)
    have "length ?a + length ?b < length a + length b"
      unfolding m_def by (rule advance_shorter[OF step(3)])
    then obtain r where r: "app sa' (transform_list ?b ?a Right) = Some r"
      "app sb' (transform_list ?a ?b Left) = Some r"
      using IH[of ?a ?b ?s sa' sb'] oka okb sa' sb' by auto
    have ka: "cIsDelete (hd_c a) = (\<not> cIsRetain (hd_c a))"
      by (rule head_kind[OF less.prems(3) step(1)])
    have kb: "cIsDelete (hd_c b) = (\<not> cIsRetain (hd_c b))"
      by (rule head_kind[OF less.prems(4) step(2)])
    have step3: "b \<noteq> [] \<or> a \<noteq> []" using step(3) by auto
    show ?thesis
      unfolding transform_list_step[OF step(1,2,3), of Left]
        transform_list_step[OF step(2,1) step3, of Right] m' m_def[symmetric]
      using r sa' sb' lp m0 by (auto simp: ka kb)
  qed
qed

lemma nonneg_tl: "nonneg a \<Longrightarrow> nonneg (tl a)"
  by (cases a) auto

lemma known_tl: "\<not> has_unknown a \<Longrightarrow> \<not> has_unknown (tl a)"
  by (cases a) auto

lemma cGetLength_nonneg: "nonneg b \<Longrightarrow> cIsInsert (hd_c b) \<Longrightarrow> 0 \<le> fin (cGetLength (hd_c b))"
  by (cases b) auto

lemma transform_list_ok:
  "nonneg a \<Longrightarrow> nonneg b \<Longrightarrow> \<not> has_unknown a \<Longrightarrow> \<not> has_unknown b \<Longrightarrow>
   nonneg (transform_list a b side) \<and> \<not> has_unknown (transform_list a b side)"
proof (induction "length a + length b" arbitrary: a b rule: less_induct)
  case less
  note IH = less.hyps
  consider (insA) x a' where "a = Insert x # a'" "side = Left \<or> \<not> cIsInsert (hd_c b)"
    | (yield) x a' y b' where "a = Insert x # a'" "b = Insert y # b'" "side = Right"
    | (insB) y b' where "\<not> cIsInsert (hd_c a)" "b = Insert y # b'"
    | (finished) "a = []" "b = []"
    | (step) "\<not> cIsInsert (hd_c a)" "\<not> cIsInsert (hd_c b)" "a \<noteq> [] \<or> b \<noteq> []"
    by (cases a rule: hd_c_cases; cases b rule: hd_c_cases; cases side) auto
  then show ?case
  proof cases
    case insA
    have eq: "transform_list a b side = Insert x # transform_list a' b side"
      using insA transform_list_Insert_Left[of x a' b] transform_list_Insert[of b x a' side]
      by auto
    show ?thesis
      unfolding eq using IH[of a' b] less.prems insA by simp
  next
    case yield
    show ?thesis
      unfolding yield transform_list_against_Insert_Right
      using IH[of a b'] less.prems yield by simp
  next
    case insB
    show ?thesis
      unfolding insB(2) transform_list_against_Insert[OF insB(1)]
      using IH[of a b'] less.prems insB by simp
  next
    case finished
    then show ?thesis by (subst transform_list.simps, subst transform_list.simps) simp
  next
    case step
    let ?m = "minLen (hd_c a) 0 (hd_c b) 0"
    have m0: "0 \<le> ?m" and ma: "a \<noteq> [] \<Longrightarrow> ?m \<le> getLength (hd a)"
      and mb: "b \<noteq> [] \<Longrightarrow> ?m \<le> getLength (hd b)"
      using minLen_bounds[OF less.prems(1,2) step(3)] by auto
    have adv: "nonneg (advance a ?m)" "\<not> has_unknown (advance a ?m)"
      "nonneg (advance b ?m)" "\<not> has_unknown (advance b ?m)"
      using advance_ok[OF less.prems(1,3), of ?m] advance_ok[OF less.prems(2,4), of ?m] ma mb
      by auto
    have "nonneg (transform_list (advance a ?m) (advance b ?m) side)
        \<and> \<not> has_unknown (transform_list (advance a ?m) (advance b ?m) side)"
      using IH[of "advance a ?m" "advance b ?m"] advance_shorter[OF step(3)] adv by simp
    then show ?thesis
      unfolding transform_list_step[OF step] using m0 by simp
  qed
qed

lemma text_transform_list:
  assumes "\<not> has_unknown a" "\<not> has_unknown b"
  shows "text_transform a b side = Inr (normalize (normalize (transform_list a b side)))"
  using transform_loop_list[OF assms, of 0 0 0 0 side "[]"] assms
  by (simp add: text_transform_def checkOp_unknown remaining_0 at_whole_def normalize_def)

lemma well_formed_ok: "well_formed a \<Longrightarrow> nonneg a \<and> \<not> has_unknown a"
  by (simp add: well_formed_def normalized_nonneg)

text \<open>
  C1. For a snapshot \<open>s\<close> and well-formed operations \<open>a\<close>, \<open>b\<close> that both apply to \<open>s\<close>:
  both transforms succeed, and applying \<open>transform(b, a, right)\<close> after \<open>a\<close> and
  \<open>transform(a, b, left)\<close> after \<open>b\<close> both succeed with the same text (TP1).
\<close>

theorem transform_convergence:
  assumes "well_formed a" and "well_formed b"
    and "text_apply s a = Inr sa" and "text_apply s b = Inr sb"
  shows "\<exists>a' b' r. text_transform a b Left = Inr a' \<and> text_transform b a Right = Inr b'
           \<and> text_apply sa b' = Inr r \<and> text_apply sb a' = Inr r"
proof -
  have a: "nonneg a" "\<not> has_unknown a" and b: "nonneg b" "\<not> has_unknown b"
    using assms(1,2) well_formed_ok by auto
  let ?a' = "transform_list a b Left" and ?b' = "transform_list b a Right"
  have sa: "app s a = Some sa" and sb: "app s b = Some sb"
    using assms(3,4) text_apply_app[OF a] text_apply_app[OF b]
    by (auto split: option.splits)
  obtain r where r: "app sa ?b' = Some r" "app sb ?a' = Some r"
    using tp1_list[OF a(1) b(1) a(2) b(2) sa sb] by auto
  have oka: "nonneg ?a'" "\<not> has_unknown ?a'" and okb: "nonneg ?b'" "\<not> has_unknown ?b'"
    using transform_list_ok[OF a(1) b(1) a(2) b(2)] transform_list_ok[OF b(1) a(1) b(2) a(2)]
    by auto
  have "text_apply sa (normalize (normalize ?b')) = Inr r"
    using r(1) okb
    by (simp add: text_apply_app nonneg_normalize known_normalize app_normalize)
  moreover have "text_apply sb (normalize (normalize ?a')) = Inr r"
    using r(2) oka
    by (simp add: text_apply_app nonneg_normalize known_normalize app_normalize)
  ultimately show ?thesis
    using text_transform_list[OF a(2) b(2), of Left] text_transform_list[OF b(2) a(2), of Right]
    by auto
qed

lemma convergence_example_values:
  "text_apply ''abc'' [Retain 1, Insert ''A''] = Inr ''aAbc''"
  "text_apply ''abc'' [Retain 1, Insert ''B'', Delete 1] = Inr ''aBc''"
  "text_transform [Retain 1, Insert ''A''] [Retain 1, Insert ''B'', Delete 1] Left
     = Inr [Retain 1, Insert ''A'', Retain 1]"
  "text_transform [Retain 1, Insert ''B'', Delete 1] [Retain 1, Insert ''A''] Right
     = Inr [Retain 2, Insert ''B'', Delete 1]"
  by code_simp+

theorem transform_convergence_witness:
  "well_formed [Retain 1, Insert ''A''] \<and> well_formed [Retain 1, Insert ''B'', Delete 1]
   \<and> (\<exists>r. text_apply ''aAbc'' [Retain 2, Insert ''B'', Delete 1] = Inr r
           \<and> text_apply ''aBc'' [Retain 1, Insert ''A'', Retain 1] = Inr r)"
  using transform_convergence [of "[Retain 1, Insert ''A'']" "[Retain 1, Insert ''B'', Delete 1]"
          "''abc''" "''aAbc''" "''aBc''"]
  by (simp add: convergence_example_values well_formed_def has_unknown_def)

subsection \<open>The loop of compose, on what is left of the operations\<close>

declare compose_loop.simps [simp del] compose_list.simps [simp del]

lemma getLength_shrink_within:
  "c \<noteq> Unknown \<Longrightarrow> 0 \<le> k \<Longrightarrow> k \<le> getLength c \<Longrightarrow> getLength (shrink c k) = getLength c - k"
  by (cases c) auto

lemma minLen_remaining_within:
  assumes "\<not> has_unknown opA" "\<not> has_unknown opB"
    and "within wA opA iA offsetA" "within wB opB iB offsetB"
  shows "minLen (hd_c (remaining opA iA offsetA)) 0 (hd_c (remaining opB iB offsetB)) 0
       = minLen (cursor opA iA) offsetA (cursor opB iB) offsetB"
proof -
  have a: "iA < length opA \<Longrightarrow> opA ! iA \<noteq> Unknown"
    using assms(1) by (auto simp: has_unknown_def dest: nth_mem)
  have b: "iB < length opB \<Longrightarrow> opB ! iB \<noteq> Unknown"
    using assms(2) by (auto simp: has_unknown_def dest: nth_mem)
  show ?thesis
    using a b assms(3,4)
    by (auto simp: hd_c_remaining minLen_def cursor_def getLength_shrink_within within_def)
qed

lemma minLen_nonneg:
  assumes "nonneg opA" "nonneg opB" "within wA opA iA offsetA" "within wB opB iB offsetB"
    and "iA < length opA \<or> iB < length opB"
  shows "0 \<le> minLen (cursor opA iA) offsetA (cursor opB iB) offsetB"
  using assms by (auto simp: minLen_def cursor_def within_def)

lemma advance_remaining_within:
  assumes "\<not> has_unknown op" and "within w op i offset" and "0 \<le> m"
  shows "advance (remaining op i offset) m
       = remaining op (if consumed op i (offset + m) then i + 1 else i)
                      (if consumed op i (offset + m) then 0 else offset + m)"
proof (cases "i < length op")
  case True
  then have k: "op ! i \<noteq> Unknown"
    using assms(1) by (auto simp: has_unknown_def dest: nth_mem)
  have o: "0 \<le> offset" "offset \<le> getLength (op ! i)"
    using assms(2) True by (auto simp: within_def)
  show ?thesis
    using True k o assms(3)
    by (cases "op ! i")
       (auto simp: advance_def remaining_def consumed_def cursor_def Cons_nth_drop_Suc
          nat_add_distrib add.commute)
next
  case False
  then show ?thesis by (auto simp: advance_def remaining_def consumed_def)
qed

lemma within_step:
  assumes "within w op i offset" and "0 \<le> m"
    and "i < length op \<Longrightarrow> \<not> w (op ! i)" and "nonneg op"
  shows "within w op (if consumed op i (offset + m) then i + 1 else i)
                     (if consumed op i (offset + m) then 0 else offset + m)"
  using assms
  by (auto simp: within_def consumed_def cursor_def nonneg_def list_all_length)

lemma within_next:
  "within w op i offset \<Longrightarrow> i < length op \<Longrightarrow> w (op ! i) \<Longrightarrow> nonneg op \<Longrightarrow>
   within w op (i + 1) offset"
  by (auto simp: within_def nonneg_def list_all_length)

lemma js_substr_remaining:
  assumes "0 \<le> offset" "offset \<le> int (length x)" "0 \<le> m"
  shows "js_substr (drop (nat offset) x) 0 m = js_substr x offset m"
proof -
  have "take (nat (min m (int (length x) - offset))) (drop (nat offset) x)
      = take (nat (min m (int (length x)))) (drop (nat offset) x)"
    using assms by (intro take_equalityI) (auto simp: min_def)
  then show ?thesis
    using assms by (simp add: js_substr_def js_index_def max_def min_def)
qed

lemma compose_loop_list:
  "\<not> has_unknown opA \<Longrightarrow> \<not> has_unknown opB \<Longrightarrow> nonneg opA \<Longrightarrow> nonneg opB \<Longrightarrow>
   within isDelete opA iA offsetA \<Longrightarrow> within isInsert opB iB offsetB \<Longrightarrow>
   compose_loop opA opB iA iB offsetA offsetB newOp
     = foldl append_op newOp
         (compose_list (remaining opA iA offsetA) (remaining opB iB offsetB))"
proof (induction opA opB iA iB offsetA offsetB newOp rule: compose_loop.induct)
  case (1 opA opB iA iB offsetA offsetB newOp)
  note known = "1.prems"(1,2) and nn = "1.prems"(3,4)
    and wA = "1.prems"(5) and wB = "1.prems"(6)
  let ?cA = "cursor opA iA" and ?cB = "cursor opB iB"
  let ?a = "remaining opA iA offsetA" and ?b = "remaining opB iB offsetB"
  show ?case
  proof (cases "iA < length opA \<or> iB < length opB")
    case False
    then show ?thesis
      by (subst compose_loop.simps, subst compose_list.simps) (simp add: remaining_def)
  next
    case live: True
    then have ne: "?a \<noteq> [] \<or> ?b \<noteq> []" by (auto simp: remaining_def)
    show ?thesis
    proof (cases "cIsDelete ?cA")
      case delA: True
      then have iA: "iA < length opA" and offA: "offsetA = 0" and d: "isDelete (opA ! iA)"
        using wA by (auto simp: cursor_def within_def split: if_splits)
      have "compose_loop opA opB (iA + 1) iB offsetA offsetB
              (append_op newOp (Delete (fin (cGetLength ?cA))))
            = foldl append_op (append_op newOp (Delete (fin (cGetLength ?cA))))
                (compose_list (remaining opA (iA + 1) offsetA) ?b)"
        using live delA "1.prems" within_next[OF wA iA d nn(1)]
        by (intro "1.IH"(1)) auto
      then show ?thesis
        using live delA ne iA offA
        by (subst compose_loop.simps, subst compose_list.simps)
           (auto simp add: hd_c_remaining tl_remaining cursor_def Let_def)
    next
      case notA: False
      show ?thesis
      proof (cases "cIsInsert ?cB")
        case insB: True
        then have iB: "iB < length opB" and offB: "offsetB = 0" and i: "isInsert (opB ! iB)"
          using wB by (auto simp: cursor_def within_def split: if_splits)
        have "compose_loop opA opB iA (iB + 1) offsetA offsetB
                (append_op newOp (Insert (cText ?cB)))
              = foldl append_op (append_op newOp (Insert (cText ?cB)))
                  (compose_list ?a (remaining opB (iB + 1) offsetB))"
          using live notA insB "1.prems" within_next[OF wB iB i nn(2)]
          by (intro "1.IH"(2)) auto
        then show ?thesis
          using live notA insB ne iB offB
          by (subst compose_loop.simps, subst compose_list.simps)
             (auto simp add: hd_c_remaining tl_remaining cursor_def Let_def)
      next
        case notB: False
        let ?m = "minLen ?cA offsetA ?cB offsetB"
        let ?new = "(if cIsRetain ?cA then
                       (if cIsRetain ?cB then append_op newOp (Retain ?m)
                        else if cIsDelete ?cB then append_op newOp (Delete ?m)
                        else newOp)
                     else if cIsInsert ?cA then
                       (if cIsRetain ?cB then
                          append_op newOp (Insert (js_substr (cText ?cA) offsetA ?m))
                        else newOp)
                     else newOp)"
        let ?iA = "if consumed opA iA (offsetA + ?m) then iA + 1 else iA"
        let ?iB = "if consumed opB iB (offsetB + ?m) then iB + 1 else iB"
        let ?oA = "if consumed opA iA (offsetA + ?m) then 0 else offsetA + ?m"
        let ?oB = "if consumed opB iB (offsetB + ?m) then 0 else offsetB + ?m"
        have m: "minLen (hd_c ?a) 0 (hd_c ?b) 0 = ?m"
          using minLen_remaining_within[OF known wA wB] .
        have m0: "0 \<le> ?m"
          using minLen_nonneg[OF nn wA wB live] .
        have wA': "within isDelete opA ?iA ?oA"
          using within_step[OF wA m0 _ nn(1)] notA by (auto simp: cursor_def)
        have wB': "within isInsert opB ?iB ?oB"
          using within_step[OF wB m0 _ nn(2)] notB by (auto simp: cursor_def)
        have IH: "compose_loop opA opB ?iA ?iB ?oA ?oB ?new
              = foldl append_op ?new
                  (compose_list (remaining opA ?iA ?oA) (remaining opB ?iB ?oB))"
          using live notA notB wA' wB' known nn
          by (intro "1.IH"(3)) auto
        have kinds: "cIsRetain (hd_c ?a) = cIsRetain ?cA" "cIsRetain (hd_c ?b) = cIsRetain ?cB"
          "cIsDelete (hd_c ?a) = cIsDelete ?cA" "cIsInsert (hd_c ?a) = cIsInsert ?cA"
          "cIsInsert (hd_c ?b) = cIsInsert ?cB" "cIsDelete (hd_c ?b) = cIsDelete ?cB"
          by (auto simp: hd_c_remaining cursor_def)
        have sub: "cIsInsert ?cA \<Longrightarrow>
                   js_substr (cText (hd_c ?a)) 0 ?m = js_substr (cText ?cA) offsetA ?m"
          using wA m0
          by (cases "opA ! iA")
             (auto simp: hd_c_remaining cursor_def within_def js_substr_remaining
                split: if_splits)
        show ?thesis
          apply (subst compose_loop.simps, subst compose_list.simps)
          using live notA notB ne IH sub
          by (auto simp add: m kinds Let_def advance_remaining_within[OF known(1) wA m0]
              advance_remaining_within[OF known(2) wB m0])
      qed
    qed
  qed
qed

subsection \<open>Compose is apply after apply\<close>

lemma compose_list_Delete:
  "compose_list (Delete n # a) b = Delete n # compose_list a b"
  by (subst compose_list.simps) (simp add: Let_def)

lemma compose_list_Insert:
  "\<not> cIsDelete (hd_c a) \<Longrightarrow> compose_list a (Insert y # b) = Insert y # compose_list a b"
  by (subst compose_list.simps) (simp add: Let_def)

lemma compose_list_step:
  "\<not> cIsDelete (hd_c a) \<Longrightarrow> \<not> cIsInsert (hd_c b) \<Longrightarrow> a \<noteq> [] \<or> b \<noteq> [] \<Longrightarrow>
   compose_list a b =
     (if cIsRetain (hd_c a) then
        (if cIsRetain (hd_c b) then [Retain (minLen (hd_c a) 0 (hd_c b) 0)]
         else if cIsDelete (hd_c b) then [Delete (minLen (hd_c a) 0 (hd_c b) 0)]
         else [])
      else if cIsInsert (hd_c a) then
        (if cIsRetain (hd_c b)
         then [Insert (js_substr (cText (hd_c a)) 0 (minLen (hd_c a) 0 (hd_c b) 0))]
         else [])
      else [])
     @ compose_list (advance a (minLen (hd_c a) 0 (hd_c b) 0))
         (advance b (minLen (hd_c a) 0 (hd_c b) 0))"
  by (subst compose_list.simps) (simp add: Let_def)

lemma app_advance_Insert:
  assumes "0 \<le> m" "m \<le> int (length x)"
  shows "app s (Insert x # a) =
           (case app s (advance (Insert x # a) m) of
              None \<Rightarrow> None
            | Some r \<Rightarrow> Some (take (nat m) x @ r))"
  using assms by (auto simp: advance_def split: option.splits)

lemma js_substr_take: "0 \<le> m \<Longrightarrow> js_substr x 0 m = take (nat m) x"
  by (auto simp: js_substr_def js_index_def max_def min_def)

lemma compose_list_apply:
  "nonneg a \<Longrightarrow> nonneg b \<Longrightarrow> \<not> has_unknown a \<Longrightarrow> \<not> has_unknown b \<Longrightarrow>
   app s a = Some sa \<Longrightarrow> app sa b = Some sb \<Longrightarrow>
   app s (compose_list a b) = Some sb"
proof (induction "length a + length b" arbitrary: a b s sa sb rule: less_induct)
  case less
  note IH = less.hyps
  consider (delA) n a' where "a = Delete n # a'"
    | (insB) y b' where "\<not> cIsDelete (hd_c a)" "b = Insert y # b'"
    | (finished) "a = []" "b = []"
    | (step) "\<not> cIsDelete (hd_c a)" "\<not> cIsInsert (hd_c b)" "a \<noteq> [] \<or> b \<noteq> []"
    by (cases a; cases "hd a"; cases b rule: hd_c_cases) auto
  then show ?case
  proof cases
    case delA
    then have n: "\<not> n > int (length s)" "app (drop (nat n) s) a' = Some sa"
      using less.prems(5) by (auto split: if_splits)
    have "app (drop (nat n) s) (compose_list a' b) = Some sb"
      using IH[of a' b "drop (nat n) s" sa sb] less.prems delA n by auto
    then show ?thesis
      unfolding delA compose_list_Delete using n by simp
  next
    case insB
    then obtain sb' where sb': "app sa b' = Some sb'" "sb = y @ sb'"
      using less.prems(6) by (auto split: option.splits)
    have "app s (compose_list a b') = Some sb'"
      using IH[of a b' s sa sb'] less.prems insB sb' by auto
    then show ?thesis
      unfolding insB(2) compose_list_Insert[OF insB(1)] using sb' by simp
  next
    case finished
    then show ?thesis
      using less.prems by (subst compose_list.simps) simp
  next
    case step
    define m where "m = minLen (hd_c a) 0 (hd_c b) 0"
    have m0: "0 \<le> m" and ma: "a \<noteq> [] \<Longrightarrow> m \<le> getLength (hd a)"
      and mb: "b \<noteq> [] \<Longrightarrow> m \<le> getLength (hd b)"
      unfolding m_def using minLen_bounds[OF less.prems(1,2) step(3)] by auto
    let ?a = "advance a m" and ?b = "advance b m"
    have oka: "nonneg ?a" "\<not> has_unknown ?a"
      using advance_ok[OF less.prems(1,3), of m] ma by auto
    have okb: "nonneg ?b" "\<not> has_unknown ?b"
      using advance_ok[OF less.prems(2,4), of m] mb by auto
    have kb: "cIsDelete (hd_c b) = (\<not> cIsRetain (hd_c b))"
      by (rule head_kind[OF less.prems(4) step(2)])
    have shorter: "length ?a + length ?b < length a + length b"
      unfolding m_def by (rule advance_shorter[OF step(3)])
    show ?thesis
    proof (cases "cIsInsert (hd_c a)")
      case True
      then obtain x a' where a: "a = Insert x # a'"
        by (cases a; cases "hd a") auto
      have mx: "m \<le> int (length x)" using ma a by simp
      let ?p = "take (nat m) x"
      have lp: "length ?p = nat m" using mx m0 by simp
      obtain sa' where sa': "app s ?a = Some sa'" "sa = ?p @ sa'"
        using app_advance_Insert[OF m0 mx, of s a'] less.prems(5) a
        by (auto split: option.splits)
      have "m \<le> int (length sa)" using sa' lp m0 by simp
      then obtain sb' where sb': "app sa' ?b = Some sb'"
        "sb = (if cIsDelete (hd_c b) then sb' else ?p @ sb')"
        using app_advance[OF less.prems(2,4) step(2) m0 _ mb, of sa] less.prems(6) sa' lp
        by (auto split: option.splits)
      have "app s (compose_list ?a ?b) = Some sb'"
        using IH[of ?a ?b s sa' sb'] shorter oka okb sa' sb' by auto
      then show ?thesis
        unfolding compose_list_step[OF step] m_def[symmetric]
        using sb' m0 a by (auto simp: kb js_substr_take)
    next
      case False
      then have ka: "cIsRetain (hd_c a)"
        using step(1) less.prems(3) by (cases a; cases "hd a") auto
      have ms: "m \<le> int (length s)"
      proof (cases "a = []")
        case True
        then have "b \<noteq> []" "sa = s" using step(3) less.prems(5) by auto
        then show ?thesis
          using mb app_head_bound[OF less.prems(6) _ step(2) less.prems(4)] by force
      next
        case ne: False
        then show ?thesis
          using ma app_head_bound[OF less.prems(5) _ False less.prems(3)] by force
      qed
      let ?s = "drop (nat m) s" and ?p = "take (nat m) s"
      have lp: "length ?p = nat m" using ms m0 by simp
      have nd: "\<not> cIsDelete (hd_c a)" by (rule step(1))
      obtain sa' where sa': "app ?s ?a = Some sa'" "sa = ?p @ sa'"
        using app_advance[OF less.prems(1,3) False m0 ms ma] less.prems(5) nd
        by (auto split: option.splits)
      have "m \<le> int (length sa)" using sa' lp m0 by simp
      then obtain sb' where sb': "app sa' ?b = Some sb'"
        "sb = (if cIsDelete (hd_c b) then sb' else ?p @ sb')"
        using app_advance[OF less.prems(2,4) step(2) m0 _ mb, of sa] less.prems(6) sa' lp
        by (auto split: option.splits)
      have "app ?s (compose_list ?a ?b) = Some sb'"
        using IH[of ?a ?b ?s sa' sb'] shorter oka okb sa' sb' by auto
      then show ?thesis
        unfolding compose_list_step[OF step] m_def[symmetric]
        using sb' m0 ms ka by (auto simp: kb)
    qed
  qed
qed

lemma compose_list_ok:
  "nonneg a \<Longrightarrow> nonneg b \<Longrightarrow> \<not> has_unknown a \<Longrightarrow> \<not> has_unknown b \<Longrightarrow>
   nonneg (compose_list a b) \<and> \<not> has_unknown (compose_list a b)"
proof (induction "length a + length b" arbitrary: a b rule: less_induct)
  case less
  note IH = less.hyps
  consider (delA) n a' where "a = Delete n # a'"
    | (insB) y b' where "\<not> cIsDelete (hd_c a)" "b = Insert y # b'"
    | (finished) "a = []" "b = []"
    | (step) "\<not> cIsDelete (hd_c a)" "\<not> cIsInsert (hd_c b)" "a \<noteq> [] \<or> b \<noteq> []"
    by (cases a; cases "hd a"; cases b rule: hd_c_cases) auto
  then show ?case
  proof cases
    case delA
    show ?thesis
      unfolding delA compose_list_Delete using IH[of a' b] less.prems delA by simp
  next
    case insB
    show ?thesis
      unfolding insB(2) compose_list_Insert[OF insB(1)]
      using IH[of a b'] less.prems insB by simp
  next
    case finished
    then show ?thesis by (subst compose_list.simps, subst compose_list.simps) simp
  next
    case step
    let ?m = "minLen (hd_c a) 0 (hd_c b) 0"
    have m0: "0 \<le> ?m" and ma: "a \<noteq> [] \<Longrightarrow> ?m \<le> getLength (hd a)"
      and mb: "b \<noteq> [] \<Longrightarrow> ?m \<le> getLength (hd b)"
      using minLen_bounds[OF less.prems(1,2) step(3)] by auto
    have adv: "nonneg (advance a ?m)" "\<not> has_unknown (advance a ?m)"
      "nonneg (advance b ?m)" "\<not> has_unknown (advance b ?m)"
      using advance_ok[OF less.prems(1,3), of ?m] advance_ok[OF less.prems(2,4), of ?m] ma mb
      by auto
    have "nonneg (compose_list (advance a ?m) (advance b ?m))
        \<and> \<not> has_unknown (compose_list (advance a ?m) (advance b ?m))"
      using IH[of "advance a ?m" "advance b ?m"] advance_shorter[OF step(3)] adv by simp
    then show ?thesis
      unfolding compose_list_step[OF step] using m0 by simp
  qed
qed

lemma within_start: "nonneg op \<Longrightarrow> within w op 0 0"
  by (cases op) (auto simp: within_def)

lemma text_compose_list:
  assumes "\<not> has_unknown a" "\<not> has_unknown b" "nonneg a" "nonneg b"
  shows "text_compose a b = Inr (normalize (normalize (compose_list a b)))"
  using compose_loop_list[OF assms within_start[OF assms(3)] within_start[OF assms(4)], of "[]"]
    assms(1,2)
  by (simp add: text_compose_def checkOp_unknown remaining_0 normalize_def)

lemma text_apply_known: "text_apply s op = Inr r \<Longrightarrow> \<not> has_unknown op"
  by (auto simp: text_apply_def checkOp_unknown split: if_splits)

text \<open>
  C2. For a snapshot \<open>s\<close> and operations \<open>a\<close>, \<open>b\<close> (components of size zero or more,
  normalized or not) such that \<open>a\<close> applies to \<open>s\<close> and \<open>b\<close> applies to the result:
  compose succeeds, and applying \<open>compose(a, b)\<close> to \<open>s\<close> gives what applying \<open>a\<close>
  and then \<open>b\<close> gives.
\<close>

theorem compose_apply:
  assumes "nonneg a" and "nonneg b"
    and "text_apply s a = Inr sa" and "text_apply sa b = Inr sb"
  shows "\<exists>ab. text_compose a b = Inr ab \<and> text_apply s ab = Inr sb"
proof -
  have a: "\<not> has_unknown a" and b: "\<not> has_unknown b"
    using assms(3,4) text_apply_known by auto
  have sa: "app s a = Some sa" and sb: "app sa b = Some sb"
    using assms(3,4) text_apply_app[OF assms(1) a] text_apply_app[OF assms(2) b]
    by (auto split: option.splits)
  have r: "app s (compose_list a b) = Some sb"
    using compose_list_apply[OF assms(1,2) a b sa sb] .
  have ok: "nonneg (compose_list a b)" "\<not> has_unknown (compose_list a b)"
    using compose_list_ok[OF assms(1,2) a b] by auto
  have "text_apply s (normalize (normalize (compose_list a b))) = Inr sb"
    using r ok by (simp add: text_apply_app nonneg_normalize known_normalize app_normalize)
  then show ?thesis
    using text_compose_list[OF a b assms(1,2)] by auto
qed

lemma composition_example_values:
  "text_apply ''Hello'' [Retain 1, Delete 1, Retain 3] = Inr ''Hllo''"
  "text_apply ''Hllo'' [Retain 4, Insert ''!''] = Inr ''Hllo!''"
  "text_compose [Retain 1, Delete 1, Retain 3] [Retain 4, Insert ''!'']
     = Inr [Retain 1, Delete 1, Retain 3, Insert ''!'']"
  by code_simp+

theorem compose_apply_witness:
  "nonneg [Retain 1, Delete 1, Retain 3] \<and> nonneg [Retain 4, Insert ''!'']
   \<and> text_apply ''Hello'' [Retain 1, Delete 1, Retain 3, Insert ''!''] = Inr ''Hllo!''"
  using compose_apply [of "[Retain 1, Delete 1, Retain 3]" "[Retain 4, Insert ''!'']"
          "''Hello''" "''Hllo''" "''Hllo!''"]
  by (simp add: composition_example_values)

end
